theory Spec2Isabelle
  imports Main
begin

section \<open>The editor model of \<^verbatim>\<open>src/editor/model/Editor.js\<close>\<close>

text \<open>
  \<^verbatim>\<open>EditorModel\<close> is a Backbone model: its state is a bag of attributes read with
  \<^verbatim>\<open>get\<close> and written with \<^verbatim>\<open>set\<close>, plus a few own properties
  (\<^verbatim>\<open>__skip\<close>, \<^verbatim>\<open>config\<close>). The attributes the operations below read or write
  are the fields of the record \<open>editor\<close>. Components (the entities of the document
  tree) are JavaScript objects compared by reference; a component is identified here by a
  number. Notifications sent with \<^verbatim>\<open>trigger\<close> and calls of caller-supplied
  callbacks are appended to the field \<open>emitted\<close>, in the order the code makes them.
\<close>

subsection \<open>Values and options\<close>

type_synonym cid = nat

text \<open>The values the readiness attributes take: \<^verbatim>\<open>undefined\<close>, a number or a boolean.\<close>

datatype jsval = Undefined | Num nat | Bool bool

fun truthy :: "jsval \<Rightarrow> bool" where
  "truthy Undefined = False"
| "truthy (Num n) = (n \<noteq> 0)"
| "truthy (Bool b) = b"

text \<open>
  The option object of a mutation notification (\<^verbatim>\<open>opt\<close> of \<^verbatim>\<open>handleUpdates\<close>):
  the three flags the guard reads, \<^verbatim>\<open>unset\<close>, which the deferred closure strips, and
  \<^verbatim>\<open>silent\<close>, which Backbone's \<^verbatim>\<open>set\<close> reads (no change event).
\<close>

record upd_opts =
  temporary :: bool
  noCount :: bool
  avoidStore :: bool
  unset :: bool
  silent :: bool

datatype event =
    SelectBefore cid
  | Select cid
  | HoverBefore cid
  | Hover "cid option"
  | Hovered cid
  | Unhovered cid
  | ClearSelection
  | Update
  | Resolve string
  | Reject string
  | UncaughtTypeError

text \<open>
  A feature module as \<^verbatim>\<open>loadModule\<close> sees it: its \<^verbatim>\<open>name\<close>, its
  \<^verbatim>\<open>storageKey\<close> (\<open>None\<close> when the property is missing), and whether it has the
  methods \<^verbatim>\<open>store\<close>, \<^verbatim>\<open>load\<close> and \<^verbatim>\<open>onLoad\<close> and the flag
  \<^verbatim>\<open>private\<close>.
\<close>

record module =
  name :: string
  storageKey :: "string option"
  has_store :: bool
  has_load :: bool
  has_onLoad :: bool
  is_private :: bool

text \<open>
  What the editor reads from its storage manager in \<^verbatim>\<open>updateChanges\<close>:
  \<^verbatim>\<open>isAutosave()\<close> and \<^verbatim>\<open>getStepsBeforeSave()\<close>.
\<close>

record storage =
  isAutosave :: bool
  getStepsBeforeSave :: nat

record editor =
  changesCount :: nat
  ready :: bool
  readyLoad :: jsval
  readyCanvas :: jsval
  skip_flag :: bool
  StorageManager :: "storage option"
  noticeOnUnload :: bool
  multipleSelection :: bool
  selected :: "cid list"
  componentHovered :: "cid option"
  storables :: "module list"
  toLoad :: "module list"
  modules :: "module list"
  attributes :: "(string \<times> module) list"
  emitted :: "event list"

text \<open>
  \<^verbatim>\<open>defaults()\<close> followed by the first lines of \<^verbatim>\<open>initialize\<close>, before any
  module is loaded: empty lists, a change counter of 0, nothing selected or hovered, no
  readiness flag set. The configuration values read later are parameters.
\<close>

definition defaults :: "bool \<Rightarrow> bool \<Rightarrow> editor" where
  "defaults notice multi =
     \<lparr> changesCount = 0, ready = False, readyLoad = Undefined, readyCanvas = Undefined,
       skip_flag = False, StorageManager = None, noticeOnUnload = notice,
       multipleSelection = multi, selected = [], componentHovered = None,
       storables = [], toLoad = [], modules = [], attributes = [], emitted = [] \<rparr>"

definition trigger :: "event \<Rightarrow> editor \<Rightarrow> editor" where
  "trigger ev em = em\<lparr>emitted := emitted em @ [ev]\<rparr>"

subsection \<open>Readiness\<close>

text \<open>
  \<^verbatim>\<open>
  _checkReady() {
    if (this.get('readyLoad') && this.get('readyCanvas') && !this.get('ready')) {
      this.set('ready', true);
    }
  }
  \<close>
  The handler is bound to \<^verbatim>\<open>change:readyLoad change:readyCanvas\<close>; Backbone sends a
  change event when \<^verbatim>\<open>set\<close> stores a value different from the current one. The
  flags are set as \<^verbatim>\<open>postLoad\<close> does it, \<^verbatim>\<open>this.set('readyLoad', 1)\<close>, without
  the option \<^verbatim>\<open>silent\<close>.
\<close>

definition checkReady :: "editor \<Rightarrow> editor" where
  "checkReady em =
     (if truthy (readyLoad em) \<and> truthy (readyCanvas em) \<and> \<not> ready em
      then em\<lparr>ready := True\<rparr> else em)"

definition set_readyLoad :: "jsval \<Rightarrow> editor \<Rightarrow> editor" where
  "set_readyLoad v em =
     (if v \<noteq> readyLoad em then checkReady (em\<lparr>readyLoad := v\<rparr>) else em)"

definition set_readyCanvas :: "jsval \<Rightarrow> editor \<Rightarrow> editor" where
  "set_readyCanvas v em =
     (if v \<noteq> readyCanvas em then checkReady (em\<lparr>readyCanvas := v\<rparr>) else em)"

datatype flag_update = SetReadyLoad jsval | SetReadyCanvas jsval

fun flag_step :: "flag_update \<Rightarrow> editor \<Rightarrow> editor" where
  "flag_step (SetReadyLoad v) em = set_readyLoad v em"
| "flag_step (SetReadyCanvas v) em = set_readyCanvas v em"

definition both_flags :: "editor \<Rightarrow> bool" where
  "both_flags em = (truthy (readyLoad em) \<and> truthy (readyCanvas em))"

text \<open>The editor after a sequence of updates of the two flags, in order.\<close>

definition run_flags :: "flag_update list \<Rightarrow> editor \<Rightarrow> editor" where
  "run_flags us em = fold flag_step us em"

subsection \<open>Timers and the change tracker\<close>

text \<open>
  \<^verbatim>\<open>let timedInterval; let updateItr;\<close> are variables of the module, not of the
  class: every \<^verbatim>\<open>EditorModel\<close> of the page reads and writes the same two. The state
  of the change tracker is therefore the state of the page: the editor and the shallow
  editor it creates in \<^verbatim>\<open>loadOnStart\<close> (\<^verbatim>\<open>new EditorModel({...})\<close>), the browser's
  pending timers in the order they were set, and the two variables. Timer ids are
  positive numbers; \<open>0\<close> in \<open>timedInterval\<close> or \<open>updateItr\<close> stands for
  \<^verbatim>\<open>undefined\<close>, which \<^verbatim>\<open>timedInterval && clearTimeout(timedInterval)\<close> skips.
\<close>

datatype inst = Primary | Shallow

text \<open>The two closures the file passes to \<^verbatim>\<open>setTimeout\<close>.\<close>

datatype task =
    CountChange inst upd_opts
  | TriggerUpdate inst

record store_req =
  req_inst :: inst
  has_resolve :: bool
  has_reject :: bool

record sys =
  editors :: "inst \<Rightarrow> editor"
  timers :: "(nat \<times> task) list"
  last_timer :: nat
  timedInterval :: nat
  updateItr :: nat
  onbeforeunload :: bool
  requests :: "store_req list"

definition on_editor :: "inst \<Rightarrow> (editor \<Rightarrow> editor) \<Rightarrow> sys \<Rightarrow> sys" where
  "on_editor i f s = s\<lparr>editors := (editors s)(i := f (editors s i))\<rparr>"

definition setTimeout :: "task \<Rightarrow> sys \<Rightarrow> nat \<times> sys" where
  "setTimeout t s =
     (let tid = Suc (last_timer s)
      in (tid, s\<lparr>timers := timers s @ [(tid, t)], last_timer := tid\<rparr>))"

definition clearTimeout :: "nat \<Rightarrow> sys \<Rightarrow> sys" where
  "clearTimeout tid s = s\<lparr>timers := filter (\<lambda>p. fst p \<noteq> tid) (timers s)\<rparr>"

text \<open>
  \<^verbatim>\<open>
  store(resolve, reject, options) {
    const sm = this.get('StorageManager');
    if (!sm) return;
    return sm.store(this.storeData(),
      res => { resolve?.(res); this.set('changesCount', 0); },
      reject, options);
  }
  \<close>
  The call hands the data and two callbacks to the storage manager and returns; the
  request waits for the backend (see \<open>store_done\<close> below). The callbacks
  \<^verbatim>\<open>resolve\<close> and \<^verbatim>\<open>reject\<close> are the caller's and optional; a request records
  whether each was given. \<^verbatim>\<open>storeData()\<close> collects what the storable modules
  return; it writes nothing to the editor (its \<^verbatim>\<open>sync:content\<close> notification
  carries \<^verbatim>\<open>noCount\<close>).
\<close>

definition store :: "inst \<Rightarrow> bool \<Rightarrow> bool \<Rightarrow> sys \<Rightarrow> sys" where
  "store i resolve reject s =
     (case StorageManager (editors s i) of
        None \<Rightarrow> s
      | Some sm \<Rightarrow>
          s\<lparr>requests := requests s @
               [\<lparr>req_inst = i, has_resolve = resolve, has_reject = reject\<rparr>]\<rparr>)"

text \<open>
  \<^verbatim>\<open>
  updateChanges() {
    const stm = this.get('StorageManager');
    const changes = this.get('changesCount');
    updateItr && clearTimeout(updateItr);
    updateItr = setTimeout(() => this.trigger('update'));
    if (this.config.noticeOnUnload) {
      window.onbeforeunload = changes ? e => 1 : null;
    }
    if (stm.isAutosave() && changes >= stm.getStepsBeforeSave()) {
      this.store();
    }
  }
  \<close>
  Without a storage manager \<^verbatim>\<open>stm.isAutosave()\<close> throws; the handler was the last
  thing its caller did, so the error is only recorded.
\<close>

definition updateChanges :: "inst \<Rightarrow> sys \<Rightarrow> sys" where
  "updateChanges i s =
     (let stm = StorageManager (editors s i);
          changes = changesCount (editors s i);
          s1 = (if updateItr s \<noteq> 0 then clearTimeout (updateItr s) s else s);
          (tid, s2) = setTimeout (TriggerUpdate i) s1;
          s3 = s2\<lparr>updateItr := tid\<rparr>;
          s4 = (if noticeOnUnload (editors s3 i)
                then s3\<lparr>onbeforeunload := (changes \<noteq> 0)\<rparr> else s3)
      in case stm of
           None \<Rightarrow> on_editor i (trigger UncaughtTypeError) s4
         | Some m \<Rightarrow>
             if isAutosave m \<and> getStepsBeforeSave m \<le> changes
             then store i False False s4 else s4)"

text \<open>
  \<^verbatim>\<open>this.set('changesCount', v, opts)\<close>: Backbone stores the value and, when it differs
  from the current one and \<^verbatim>\<open>opts.silent\<close> is not set, sends
  \<^verbatim>\<open>change:changesCount\<close>, which \<^verbatim>\<open>initialize\<close> bound to \<^verbatim>\<open>updateChanges\<close>.
\<close>

definition set_changesCount :: "inst \<Rightarrow> nat \<Rightarrow> bool \<Rightarrow> sys \<Rightarrow> sys" where
  "set_changesCount i v quiet s =
     (if v = changesCount (editors s i) then s
      else let s1 = on_editor i (\<lambda>em. em\<lparr>changesCount := v\<rparr>) s
           in if quiet then s1 else updateChanges i s1)"

text \<open>
  \<^verbatim>\<open>
  handleUpdates(model, val, opt = {}) {
    if (this.__skip || opt.temporary || opt.noCount || opt.avoidStore || !this.get('ready')) {
      return;
    }
    timedInterval && clearTimeout(timedInterval);
    timedInterval = setTimeout(() => {
      const curr = this.get('changesCount') || 0;
      const { unset, ...opts } = opt;
      this.set('changesCount', curr + 1, opts);
    }, 0);
  }
  changesUp(opts) { this.handleUpdates(0, 0, opts); }
  \<close>
  The counter is a number from \<^verbatim>\<open>defaults()\<close> on, so \<^verbatim>\<open>|| 0\<close> changes nothing.
  It is a JavaScript number, a double: \<^verbatim>\<open>curr + 1\<close> is exact below \<open>2 ^ 53\<close>. From
  there on the integers a double can hold are even (up to \<open>2 ^ 54\<close>, then further
  apart), and the sum is rounded to the nearest of them, to the one with the even
  significand when it lies halfway: at \<open>2 ^ 53\<close> the sum is \<open>2 ^ 53\<close> again.
\<close>

definition js_add1 :: "nat \<Rightarrow> nat" where
  "js_add1 c =
     (if c < 2 ^ 53 then c + 1
      else if c < 2 ^ 54 \<and> odd (c div 2) then c + 2
      else c)"

definition handleUpdates :: "inst \<Rightarrow> upd_opts \<Rightarrow> sys \<Rightarrow> sys" where
  "handleUpdates i opt s =
     (if skip_flag (editors s i) \<or> temporary opt \<or> noCount opt \<or> avoidStore opt
         \<or> \<not> ready (editors s i)
      then s
      else let s1 = (if timedInterval s \<noteq> 0 then clearTimeout (timedInterval s) s else s);
               (tid, s2) = setTimeout (CountChange i opt) s1
           in s2\<lparr>timedInterval := tid\<rparr>)"

definition changesUp :: "inst \<Rightarrow> upd_opts \<Rightarrow> sys \<Rightarrow> sys" where
  "changesUp i opts s = handleUpdates i opts s"

fun run_task :: "task \<Rightarrow> sys \<Rightarrow> sys" where
  "run_task (CountChange i opt) s =
     (let curr = changesCount (editors s i);
          opts = opt\<lparr>unset := False\<rparr>
      in set_changesCount i (js_add1 curr) (silent opts) s)"
| "run_task (TriggerUpdate i) s = on_editor i (trigger Update) s"

text \<open>
  A pending timer fires: it leaves the browser's list and its closure runs. A timer that
  was cleared does not fire. At the next turn of the scheduler the timers pending at its
  start fire in the order they were set (all have delay 0).
\<close>

definition fire_timer :: "nat \<Rightarrow> sys \<Rightarrow> sys" where
  "fire_timer tid s =
     (case map_of (timers s) tid of
        None \<Rightarrow> s
      | Some t \<Rightarrow> run_task t (clearTimeout tid s))"

definition next_turn :: "sys \<Rightarrow> sys" where
  "next_turn s = fold fire_timer (map fst (timers s)) s"

text \<open>
  A burst: consecutive notifications on one editor within one turn. \<open>burst\<close> makes
  them all through \<^verbatim>\<open>handleUpdates\<close>; \<open>burst_of\<close> takes for each notification the
  entry point it comes through, \<^verbatim>\<open>handleUpdates\<close> or \<^verbatim>\<open>changesUp\<close>.
\<close>

datatype entry = HandleUpdates upd_opts | ChangesUp upd_opts

fun entry_opts :: "entry \<Rightarrow> upd_opts" where
  "entry_opts (HandleUpdates opt) = opt"
| "entry_opts (ChangesUp opts) = opts"

fun call :: "inst \<Rightarrow> entry \<Rightarrow> sys \<Rightarrow> sys" where
  "call i (HandleUpdates opt) s = handleUpdates i opt s"
| "call i (ChangesUp opts) s = changesUp i opts s"

definition burst_of :: "inst \<Rightarrow> entry list \<Rightarrow> sys \<Rightarrow> sys" where
  "burst_of i cs s = fold (call i) cs s"

definition burst :: "inst \<Rightarrow> upd_opts list \<Rightarrow> sys \<Rightarrow> sys" where
  "burst i os s = fold (handleUpdates i) os s"

text \<open>Notifications on the editors of the page, in any order, within one turn.\<close>

definition notify_all :: "(inst \<times> upd_opts) list \<Rightarrow> sys \<Rightarrow> sys" where
  "notify_all evs s = fold (\<lambda>ev. handleUpdates (fst ev) (snd ev)) evs s"

text \<open>
  The state a notification that passes the guard leaves, as one record update: the timer
  named by \<open>timedInterval\<close> is gone, a new timer that counts the change is set, and
  \<open>timedInterval\<close> names it. The new id is \<open>last_timer s + n\<close>; \<open>n\<close> is 1 for one
  notification.
\<close>

definition counted :: "inst \<Rightarrow> upd_opts \<Rightarrow> nat \<Rightarrow> sys \<Rightarrow> sys" where
  "counted i opt n s =
     s\<lparr>timers := filter (\<lambda>p. fst p \<noteq> timedInterval s) (timers s)
                  @ [(last_timer s + n, CountChange i opt)],
       last_timer := last_timer s + n, timedInterval := last_timer s + n\<rparr>"

text \<open>Every pending timer has a positive id that \<^verbatim>\<open>setTimeout\<close> has already given out.\<close>

definition timers_ok :: "sys \<Rightarrow> bool" where
  "timers_ok s = list_all (\<lambda>p. 0 < fst p \<and> fst p \<le> last_timer s) (timers s)"

text \<open>
  \<^verbatim>\<open>
  skip(clb) {
    this.__skip = true;
    const um = this.get('UndoManager');
    um ? um.skip(clb) : clb();
    this.__skip = false;
  }
  \<close>
  The undo manager's \<^verbatim>\<open>skip\<close> runs the callback with undo tracking stopped; for
  the editor's state both branches run \<^verbatim>\<open>clb\<close>.
\<close>

definition skip :: "inst \<Rightarrow> (sys \<Rightarrow> sys) \<Rightarrow> sys \<Rightarrow> sys" where
  "skip i clb s =
     (let s1 = on_editor i (\<lambda>em. em\<lparr>skip_flag := True\<rparr>) s;
          s2 = clb s1
      in on_editor i (\<lambda>em. em\<lparr>skip_flag := False\<rparr>) s2)"

text \<open>
  Modelled from the spec: \<^verbatim>\<open>StorageManager.store\<close> is not in the source file. The
  backend calls are asynchronous; the backend answers a request with success and a
  result, or with failure and an error, and the storage manager calls the matching
  callback with it. On success that is the closure \<^verbatim>\<open>store\<close> passed:
  \<^verbatim>\<open>res => { resolve?.(res); this.set('changesCount', 0); }\<close>; on failure it is the
  caller's \<^verbatim>\<open>reject\<close>, if given. A callback is taken to return; its call is
  recorded in \<open>emitted\<close>. \<open>backend_reply\<close> answers the oldest request.
\<close>

datatype reply = Success string | Failure string

definition store_done :: "store_req \<Rightarrow> reply \<Rightarrow> sys \<Rightarrow> sys" where
  "store_done r rep s =
     (case rep of
        Success res \<Rightarrow>
          (let s1 = (if has_resolve r then on_editor (req_inst r) (trigger (Resolve res)) s
                     else s)
           in set_changesCount (req_inst r) 0 False s1)
      | Failure err \<Rightarrow>
          (if has_reject r then on_editor (req_inst r) (trigger (Reject err)) s else s))"

definition backend_reply :: "reply \<Rightarrow> sys \<Rightarrow> sys" where
  "backend_reply rep s =
     (case requests s of
        [] \<Rightarrow> s
      | r # rs \<Rightarrow> store_done r rep (s\<lparr>requests := rs\<rparr>))"

text \<open>A page at start: both editors fresh, no timer set.\<close>

definition page0 :: "editor \<Rightarrow> editor \<Rightarrow> sys" where
  "page0 em sh =
     \<lparr> editors = (\<lambda>i. case i of Primary \<Rightarrow> em | Shallow \<Rightarrow> sh), timers = [],
       last_timer = 0, timedInterval = 0, updateItr = 0, onbeforeunload = False,
       requests = [] \<rparr>"

text \<open>
  Values used in the examples: a notification without options, an editor that is ready,
  with a storage manager that does not save automatically, and the shallow editor as
  \<^verbatim>\<open>loadOnStart\<close> builds it: \<^verbatim>\<open>new EditorModel({ noticeOnUnload: false,
  storageManager: false, undoManager: false })\<close>, on which nothing sets
  \<^verbatim>\<open>readyLoad\<close>.
\<close>

definition no_opts :: upd_opts where
  "no_opts = \<lparr>temporary = False, noCount = False, avoidStore = False, unset = False,
     silent = False\<rparr>"

definition ready_editor :: editor where
  "ready_editor = (defaults False True)\<lparr>ready := True, readyLoad := Num 1,
     readyCanvas := Num 1,
     StorageManager := Some \<lparr>isAutosave = False, getStepsBeforeSave = 1\<rparr>\<rparr>"



subsection \<open>The module registry\<close>

text \<open>
  \<^verbatim>\<open>
  loadModule(moduleName) {
    const { config } = this;
    const Module = moduleName.default || moduleName;
    const Mod = new Module();
    const name = Mod.name.charAt(0).toLowerCase() + Mod.name.slice(1);
    ...
    if (Mod.storageKey && Mod.store && Mod.load) {
      // DomComponents should be load before CSS Composer
      const mth = name == 'domComponents' ? 'unshift' : 'push';
      this.get('storables')[mth](Mod);
    }
    cfg.em = this;
    Mod.init({ ...cfg });
    !Mod.private && this.set(Mod.name, Mod);
    Mod.onLoad && this.get('toLoad').push(Mod);
    this.get('modules').push(Mod);
    return this;
  }
  \<close>
  The lines left out build the configuration object handed to \<^verbatim>\<open>Mod.init\<close>; they
  write nothing to the editor. A character is a code unit; only the letters A to Z matter
  for the comparison with \<^verbatim>\<open>'domComponents'\<close>. An empty \<^verbatim>\<open>storageKey\<close> is falsy.
\<close>

definition toLowerCase :: "char \<Rightarrow> char" where
  "toLowerCase c =
     (let n = (of_char c :: nat) in if 65 \<le> n \<and> n \<le> 90 then char_of (n + 32) else c)"

fun lowerFirst :: "string \<Rightarrow> string" where
  "lowerFirst [] = []"
| "lowerFirst (c # cs) = toLowerCase c # cs"

definition isStorable :: "module \<Rightarrow> bool" where
  "isStorable Mod =
     ((case storageKey Mod of None \<Rightarrow> False | Some k \<Rightarrow> k \<noteq> [])
      \<and> has_store Mod \<and> has_load Mod)"

definition isDomComponents :: "module \<Rightarrow> bool" where
  "isDomComponents Mod = (lowerFirst (name Mod) = ''domComponents'')"

definition loadModule :: "module \<Rightarrow> editor \<Rightarrow> editor" where
  "loadModule Mod em =
     (let em1 = (if isStorable Mod
                 then (if isDomComponents Mod
                       then em\<lparr>storables := Mod # storables em\<rparr>
                       else em\<lparr>storables := storables em @ [Mod]\<rparr>)
                 else em);
          em2 = (if \<not> is_private Mod
                 then em1\<lparr>attributes := (name Mod, Mod) # attributes em1\<rparr> else em1);
          em3 = (if has_onLoad Mod then em2\<lparr>toLoad := toLoad em2 @ [Mod]\<rparr> else em2)
      in em3\<lparr>modules := modules em3 @ [Mod]\<rparr>)"

text \<open>\<^verbatim>\<open>deps.forEach(name => this.loadModule(name))\<close>, for any list of modules.\<close>

definition loadModules :: "module list \<Rightarrow> editor \<Rightarrow> editor" where
  "loadModules ms em = fold loadModule ms em"

text \<open>A module for the examples: public, with the storable triad, no \<^verbatim>\<open>onLoad\<close>.\<close>

definition storable_module :: "string \<Rightarrow> module" where
  "storable_module n =
     \<lparr>name = n, storageKey = Some n, has_store = True, has_load = True, has_onLoad = False,
      is_private = False\<rparr>"

subsection \<open>The document and the selection\<close>

text \<open>
  What the selection operations read from a component: the attributes
  \<^verbatim>\<open>selectable\<close> and \<^verbatim>\<open>hoverable\<close>, \<^verbatim>\<open>parent()\<close>, the Backbone collection that
  holds it (\<^verbatim>\<open>model.collection\<close>, \<open>None\<close> for \<^verbatim>\<open>undefined\<close>; collections are
  compared by reference, so each has a number) and that collection's models in order.
  The listeners of the two cancelable notifications receive the option object and may
  write to it; what they write is a function of the component and the options.
\<close>

record sel_event =
  ctrlKey :: bool
  metaKey :: bool
  shiftKey :: bool

record sel_opts =
  event :: "sel_event option"
  abort :: bool
  useValid :: bool
  forceChange :: bool

record env =
  selectable :: "cid \<Rightarrow> bool"
  hoverable :: "cid \<Rightarrow> bool"
  parent :: "cid \<Rightarrow> cid option"
  collection :: "cid \<Rightarrow> nat option"
  models :: "nat \<Rightarrow> cid list"
  on_select_before :: "cid \<Rightarrow> sel_opts \<Rightarrow> sel_opts"
  on_hover_before :: "cid \<Rightarrow> sel_opts \<Rightarrow> sel_opts"

text \<open>\<^verbatim>\<open>opts = {}\<close>, the default of every selection operation.\<close>

definition empty_opts :: sel_opts where
  "empty_opts = \<lparr>event = None, abort = False, useValid = False, forceChange = False\<rparr>"

text \<open>
  Modelled from the spec: \<^verbatim>\<open>getModel\<close> (\<^verbatim>\<open>utils/mixins\<close>) is not in the source
  file. A caller passes nothing (\<^verbatim>\<open>undefined\<close>, \<^verbatim>\<open>null\<close>), a DOM element with no
  model, from which no entity can be resolved, a DOM element that carries the model of an
  entity, or an entity (the component itself). \<^verbatim>\<open>getModel(el, $)\<close> resolves an element
  through \<^verbatim>\<open>$\<close> and returns anything else as it is. \<^verbatim>\<open>getModel(el)\<close>, the call
  with one argument in \<^verbatim>\<open>setHovered\<close>, has no \<^verbatim>\<open>$\<close> to resolve an element
  through: on a DOM element it throws a \<^verbatim>\<open>TypeError\<close> (\<open>None\<close> in
  \<open>getModel_without_cash\<close>).
\<close>

datatype el = Nothing | Detached | Element cid | Model cid

fun getModel :: "el \<Rightarrow> cid option" where
  "getModel Nothing = None"
| "getModel Detached = None"
| "getModel (Element c) = Some c"
| "getModel (Model c) = Some c"

fun getModel_without_cash :: "el \<Rightarrow> cid option option" where
  "getModel_without_cash Nothing = Some None"
| "getModel_without_cash Detached = None"
| "getModel_without_cash (Element c) = None"
| "getModel_without_cash (Model c) = Some (Some c)"

datatype target = Single el | Many "el list"

fun isArray :: "target \<Rightarrow> bool" where
  "isArray (Single e) = False"
| "isArray (Many es) = True"

fun getModels :: "target \<Rightarrow> cid option list" where
  "getModels (Single e) = [getModel e]"
| "getModels (Many es) = map getModel es"

text \<open>
  Modelled from the spec: the collection \<^verbatim>\<open>Selected\<close> (\<^verbatim>\<open>./Selected\<close>) is not in the
  source file. The Selection Set is an ordered sequence of entity references without
  duplicates; \<^verbatim>\<open>addComponent\<close> inserts a resolved entity if absent,
  \<^verbatim>\<open>removeComponent\<close> removes the given entities if present, \<^verbatim>\<open>allComponents\<close> is
  the full list and \<^verbatim>\<open>lastComponent\<close> the entity added last.
\<close>

definition hasComponent :: "cid option \<Rightarrow> cid list \<Rightarrow> bool" where
  "hasComponent c sel = (case c of None \<Rightarrow> False | Some m \<Rightarrow> m \<in> set sel)"

definition addComponent :: "cid option \<Rightarrow> cid list \<Rightarrow> cid list" where
  "addComponent c sel =
     (case c of None \<Rightarrow> sel | Some m \<Rightarrow> if m \<in> set sel then sel else sel @ [m])"

definition removeComponent :: "cid option list \<Rightarrow> cid list \<Rightarrow> cid list" where
  "removeComponent cs sel = filter (\<lambda>s. Some s \<notin> set cs) sel"

definition lastComponent :: "cid list \<Rightarrow> cid option" where
  "lastComponent sel = (if sel = [] then None else Some (last sel))"

definition getSelected :: "editor \<Rightarrow> cid option" where
  "getSelected em = lastComponent (selected em)"

definition getSelectedAll :: "editor \<Rightarrow> cid list" where
  "getSelectedAll em = selected em"

text \<open>
  Modelled from the spec: \<^verbatim>\<open>Component.index()\<close> and Backbone's
  \<^verbatim>\<open>Collection.at\<close> are not in the source file. \<^verbatim>\<open>index()\<close> is the position of
  the component in its collection (\<^verbatim>\<open>indexOf\<close>: \<open>-1\<close> when absent, 0 without a
  collection); \<^verbatim>\<open>at(i)\<close> is the model at position \<open>i\<close>, counting from the end for a
  negative \<open>i\<close>, \<^verbatim>\<open>undefined\<close> out of range.
\<close>

fun indexOf :: "cid list \<Rightarrow> cid \<Rightarrow> int" where
  "indexOf [] c = - 1"
| "indexOf (x # xs) c =
     (if x = c then 0 else (let r = indexOf xs c in if r < 0 then - 1 else r + 1))"

definition index :: "env \<Rightarrow> cid \<Rightarrow> int" where
  "index env c = (case collection env c of None \<Rightarrow> 0 | Some k \<Rightarrow> indexOf (models env k) c)"

definition at :: "env \<Rightarrow> nat \<Rightarrow> int \<Rightarrow> cid option" where
  "at env k i =
     (let ms = models env k;
          j = (if i < 0 then i + int (length ms) else i)
      in if 0 \<le> j \<and> j < int (length ms) then Some (ms ! nat j) else None)"

text \<open>
  \<^verbatim>\<open>
  removeSelected(el, opts = {}) {
    this.get('selected').removeComponent(getModel(el, $), opts);
  }
  addSelected(el, opts = {}) {
    const model = getModel(el, $);
    const models = isArray(model) ? model : [model];
    models.forEach(model => {
      if (model && !model.get('selectable')) return;
      const selected = this.get('selected');
      opts.forceChange && this.removeSelected(model, opts);
      selected.addComponent(model, opts);
      model && this.trigger('component:select', model, opts);
    });
  }
  toggleSelected(el, opts = {}) {
    const model = getModel(el, $);
    const models = isArray(model) ? model : [model];
    models.forEach(model => {
      if (this.get('selected').hasComponent(model)) {
        this.removeSelected(model, opts);
      } else {
        this.addSelected(model, opts);
      }
    });
  }
  \<close>
  The functions with suffix \<open>_models\<close> take the entities already resolved, as the calls
  from inside \<^verbatim>\<open>setSelected\<close> pass them.
\<close>

definition removeSelected_models :: "cid option list \<Rightarrow> editor \<Rightarrow> editor" where
  "removeSelected_models cs em = em\<lparr>selected := removeComponent cs (selected em)\<rparr>"

definition removeSelected :: "target \<Rightarrow> editor \<Rightarrow> editor" where
  "removeSelected el em = removeSelected_models (getModels el) em"

definition addSelected_model :: "env \<Rightarrow> sel_opts \<Rightarrow> cid option \<Rightarrow> editor \<Rightarrow> editor" where
  "addSelected_model env opts model em =
     (if (case model of None \<Rightarrow> False | Some m \<Rightarrow> \<not> selectable env m) then em
      else let em1 = (if forceChange opts then removeSelected_models [model] em else em);
               em2 = em1\<lparr>selected := addComponent model (selected em1)\<rparr>
           in case model of None \<Rightarrow> em2 | Some m \<Rightarrow> trigger (Select m) em2)"

definition addSelected :: "env \<Rightarrow> target \<Rightarrow> sel_opts \<Rightarrow> editor \<Rightarrow> editor" where
  "addSelected env el opts em = fold (addSelected_model env opts) (getModels el) em"

definition toggleSelected_model :: "env \<Rightarrow> sel_opts \<Rightarrow> cid option \<Rightarrow> editor \<Rightarrow> editor" where
  "toggleSelected_model env opts model em =
     (if hasComponent model (selected em) then removeSelected_models [model] em
      else addSelected_model env opts model em)"

definition toggleSelected :: "env \<Rightarrow> target \<Rightarrow> sel_opts \<Rightarrow> editor \<Rightarrow> editor" where
  "toggleSelected env el opts em = fold (toggleSelected_model env opts) (getModels el) em"

subsection \<open>Selecting\<close>

text \<open>
  A call either returns or throws a \<^verbatim>\<open>TypeError\<close> (reading a property of
  \<^verbatim>\<open>undefined\<close>); both come with the editor as the call left it. A loop that does
  not end gives no result: \<open>None\<close>.
\<close>

datatype 'a outcome = Returned 'a | Threw 'a

text \<open>
  \<^verbatim>\<open>while (parent && !parent.get('selectable')) parent = parent.parent();\<close> and the same
  loop with \<^verbatim>\<open>hoverable\<close>: from \<open>p\<close> upwards, the first entity with the flag, or
  \<^verbatim>\<open>undefined\<close> past the root.
\<close>

partial_function (option) climb ::
  "(cid \<Rightarrow> bool) \<Rightarrow> (cid \<Rightarrow> cid option) \<Rightarrow> cid option \<Rightarrow> cid option option" where
  "climb ok par p =
     (case p of
        None \<Rightarrow> Some None
      | Some q \<Rightarrow> if ok q then Some (Some q) else climb ok par (par q))"

declare climb.simps [code]

text \<open>
  The body of \<^verbatim>\<open>this.getSelectedAll().forEach(sel => ...)\<close> in the range branch:
  \<^verbatim>\<open>
  const selColl = sel.collection;
  const selIndex = sel.index();
  if (selColl === coll) {
    if (selIndex < index) {
      min = isUndefined(min) ? selIndex : Math.max(min, selIndex);
    } else if (selIndex > index) {
      max = isUndefined(max) ? selIndex : Math.min(max, selIndex);
    }
  }
  \<close>
\<close>

definition nearest_step ::
  "env \<Rightarrow> nat option \<Rightarrow> int \<Rightarrow> cid \<Rightarrow> int option \<times> int option \<Rightarrow> int option \<times> int option" where
  "nearest_step env coll idx sel mm =
     (let selColl = collection env sel;
          selIndex = index env sel;
          (mn, mx) = mm
      in if selColl = coll
         then (if selIndex < idx
               then (Some (case mn of None \<Rightarrow> selIndex | Some v \<Rightarrow> max v selIndex), mx)
               else if selIndex > idx
               then (mn, Some (case mx of None \<Rightarrow> selIndex | Some v \<Rightarrow> min v selIndex))
               else (mn, mx))
         else (mn, mx))"

text \<open>
  The two halves of that body, each on its own variable: \<open>keep_max\<close> is the update
  of \<^verbatim>\<open>min\<close> (the greatest index seen among the entities that satisfy \<open>P\<close>),
  \<open>keep_min\<close> the update of \<^verbatim>\<open>max\<close>.
\<close>

definition keep_max :: "('a \<Rightarrow> bool) \<Rightarrow> ('a \<Rightarrow> int) \<Rightarrow> 'a \<Rightarrow> int option \<Rightarrow> int option" where
  "keep_max P f s m = (if P s then Some (case m of None \<Rightarrow> f s | Some v \<Rightarrow> max v (f s)) else m)"

definition keep_min :: "('a \<Rightarrow> bool) \<Rightarrow> ('a \<Rightarrow> int) \<Rightarrow> 'a \<Rightarrow> int option \<Rightarrow> int option" where
  "keep_min P f s m = (if P s then Some (case m of None \<Rightarrow> f s | Some v \<Rightarrow> min v (f s)) else m)"

text \<open>
  \<^verbatim>\<open>while (min !== index) { this.addSelected(coll.at(min)); min++; }\<close> and
  \<^verbatim>\<open>while (max !== index) { this.addSelected(coll.at(max)); max--; }\<close>.
  \<^verbatim>\<open>coll.at\<close> throws when the candidate has no collection.
\<close>

partial_function (option) add_up ::
  "env \<Rightarrow> nat option \<Rightarrow> int \<Rightarrow> int \<Rightarrow> editor \<Rightarrow> editor outcome option" where
  "add_up env coll mn idx em =
     (if mn \<noteq> idx
      then (case coll of
              None \<Rightarrow> Some (Threw em)
            | Some k \<Rightarrow>
                add_up env coll (mn + 1) idx
                  (addSelected_model env empty_opts (at env k mn) em))
      else Some (Returned em))"

declare add_up.simps [code]

partial_function (option) add_down ::
  "env \<Rightarrow> nat option \<Rightarrow> int \<Rightarrow> int \<Rightarrow> editor \<Rightarrow> editor outcome option" where
  "add_down env coll mx idx em =
     (if mx \<noteq> idx
      then (case coll of
              None \<Rightarrow> Some (Threw em)
            | Some k \<Rightarrow>
                add_down env coll (mx - 1) idx
                  (addSelected_model env empty_opts (at env k mx) em))
      else Some (Returned em))"

declare add_down.simps [code]

text \<open>
  \<^verbatim>\<open>
  setSelected(el, opts = {}) {
    const { event } = opts;
    const ctrlKey = event && (event.ctrlKey || event.metaKey);
    const { shiftKey } = event || {};
    const multiple = isArray(el);
    const els = (multiple ? el : [el]).map(el => getModel(el, $));
    const selected = this.getSelectedAll();
    const mltSel = this.getConfig('multipleSelection');
    let added;
    multiple && this.removeSelected(selected.filter(s => !contains(els, s)));
    els.forEach(el => {
      let model = getModel(el);
      if (model) {
        this.trigger('component:select:before', model, opts);
        if (!model.get('selectable') || opts.abort) {
          if (opts.useValid) {
            let parent = model.parent();
            while (parent && !parent.get('selectable')) parent = parent.parent();
            model = parent;
          } else {
            return;
          }
        }
      }
      if (ctrlKey && mltSel) {
        return this.toggleSelected(model);
      } else if (shiftKey && mltSel) {
        this.clearSelection(this.get('Canvas').getWindow());
        const coll = model.collection;
        const index = model.index();
        let min, max;
        this.getSelectedAll().forEach(sel => { ... });
        if (!isUndefined(min)) { while (min !== index) { ... } }
        if (!isUndefined(max)) { while (max !== index) { ... } }
        return this.addSelected(model);
      }
      !multiple && this.removeSelected(selected.filter(s => s !== model));
      this.addSelected(model, opts);
      added = model;
    });
  }
  \<close>
  \<open>select_model\<close> is the callback from \<^verbatim>\<open>if (ctrlKey && mltSel)\<close> on, for the
  entity the validity check left in \<^verbatim>\<open>model\<close> (\<open>None\<close> for \<^verbatim>\<open>undefined\<close>);
  \<open>select_one\<close> is the whole callback; \<open>select_each\<close> is \<^verbatim>\<open>els.forEach\<close>, with
  the option object handed from one candidate to the next, as the listeners left it.
\<close>

definition select_model ::
  "env \<Rightarrow> bool \<Rightarrow> bool \<Rightarrow> bool \<Rightarrow> bool \<Rightarrow> cid list \<Rightarrow> cid option \<Rightarrow> sel_opts \<Rightarrow> editor
     \<Rightarrow> editor outcome option" where
  "select_model env ctrl shift multiple mltSel selected0 model opts em =
     (if ctrl \<and> mltSel
      then Some (Returned (toggleSelected_model env empty_opts model em))
      else if shift \<and> mltSel
      then (let em1 = trigger ClearSelection em
            in case model of
                 None \<Rightarrow> Some (Threw em1)
               | Some m \<Rightarrow>
                   (let coll = collection env m;
                        idx = index env m;
                        (mn, mx) = fold (nearest_step env coll idx) (getSelectedAll em1)
                                     (None, None)
                    in case (case mn of None \<Rightarrow> Some (Returned em1)
                                  | Some v \<Rightarrow> add_up env coll v idx em1) of
                         None \<Rightarrow> None
                       | Some (Threw e) \<Rightarrow> Some (Threw e)
                       | Some (Returned em2) \<Rightarrow>
                           (case (case mx of None \<Rightarrow> Some (Returned em2)
                                       | Some v \<Rightarrow> add_down env coll v idx em2) of
                              None \<Rightarrow> None
                            | Some (Threw e) \<Rightarrow> Some (Threw e)
                            | Some (Returned em3) \<Rightarrow>
                                Some (Returned (addSelected_model env empty_opts (Some m) em3)))))
      else (let em1 = (if \<not> multiple
                       then removeSelected_models
                              (map Some (filter (\<lambda>s. Some s \<noteq> model) selected0)) em
                       else em)
            in Some (Returned (addSelected_model env opts model em1))))"

fun with_opts :: "sel_opts \<Rightarrow> editor outcome option \<Rightarrow> (sel_opts \<times> editor) outcome option" where
  "with_opts opts None = None"
| "with_opts opts (Some (Returned em)) = Some (Returned (opts, em))"
| "with_opts opts (Some (Threw em)) = Some (Threw (opts, em))"

definition select_one ::
  "env \<Rightarrow> bool \<Rightarrow> bool \<Rightarrow> bool \<Rightarrow> bool \<Rightarrow> cid list \<Rightarrow> cid option \<Rightarrow> sel_opts \<Rightarrow> editor
     \<Rightarrow> (sel_opts \<times> editor) outcome option" where
  "select_one env ctrl shift multiple mltSel selected0 el opts em =
     (case el of
        None \<Rightarrow>
          with_opts opts (select_model env ctrl shift multiple mltSel selected0 None opts em)
      | Some m \<Rightarrow>
          (let em1 = trigger (SelectBefore m) em;
               opts1 = on_select_before env m opts
           in if \<not> selectable env m \<or> abort opts1
              then (if useValid opts1
                    then (case climb (selectable env) (parent env) (parent env m) of
                            None \<Rightarrow> None
                          | Some p \<Rightarrow>
                              with_opts opts1
                                (select_model env ctrl shift multiple mltSel selected0 p opts1 em1))
                    else Some (Returned (opts1, em1)))
              else with_opts opts1
                     (select_model env ctrl shift multiple mltSel selected0 (Some m) opts1 em1)))"

fun select_each ::
  "env \<Rightarrow> bool \<Rightarrow> bool \<Rightarrow> bool \<Rightarrow> bool \<Rightarrow> cid list \<Rightarrow> cid option list \<Rightarrow> sel_opts \<Rightarrow> editor
     \<Rightarrow> (sel_opts \<times> editor) outcome option" where
  "select_each env ctrl shift multiple mltSel selected0 [] opts em = Some (Returned (opts, em))"
| "select_each env ctrl shift multiple mltSel selected0 (el # els) opts em =
     (case select_one env ctrl shift multiple mltSel selected0 el opts em of
        None \<Rightarrow> None
      | Some (Threw x) \<Rightarrow> Some (Threw x)
      | Some (Returned (opts1, em1)) \<Rightarrow>
          select_each env ctrl shift multiple mltSel selected0 els opts1 em1)"

definition setSelected ::
  "env \<Rightarrow> target \<Rightarrow> sel_opts \<Rightarrow> editor \<Rightarrow> (sel_opts \<times> editor) outcome option" where
  "setSelected env el opts em =
     (let ctrl = (case event opts of None \<Rightarrow> False | Some e \<Rightarrow> ctrlKey e \<or> metaKey e);
          shift = (case event opts of None \<Rightarrow> False | Some e \<Rightarrow> shiftKey e);
          multiple = isArray el;
          els = getModels el;
          selected0 = getSelectedAll em;
          mltSel = multipleSelection em;
          em1 = (if multiple
                 then removeSelected_models
                        (map Some (filter (\<lambda>s. Some s \<notin> set els) selected0)) em
                 else em)
      in select_each env ctrl shift multiple mltSel selected0 els opts em1)"

text \<open>The Selection Set a call leaves, when it returns.\<close>

fun selection_after :: "(sel_opts \<times> editor) outcome option \<Rightarrow> cid list option" where
  "selection_after (Some (Returned (opts, em))) = Some (selected em)"
| "selection_after (Some (Threw x)) = None"
| "selection_after None = None"

subsection \<open>Hovering\<close>

text \<open>
  \<^verbatim>\<open>
  componentHovered(editor, component, options) {
    const prev = this.previous('componentHovered');
    prev && this.trigger('component:unhovered', prev, options);
    component && this.trigger('component:hovered', component, options);
  }
  \<close>
  is bound to \<^verbatim>\<open>change:componentHovered\<close>. The attribute holds an entity or one of the
  falsy values \<^verbatim>\<open>null\<close>, \<^verbatim>\<open>''\<close>, \<^verbatim>\<open>undefined\<close>; the code only tests it for
  truth, and \<open>None\<close> stands for all three.
\<close>

definition set_componentHovered :: "cid option \<Rightarrow> editor \<Rightarrow> editor" where
  "set_componentHovered v em =
     (if v = componentHovered em then em
      else (let prev = componentHovered em;
                em1 = em\<lparr>componentHovered := v\<rparr>;
                em2 = (case prev of None \<Rightarrow> em1 | Some p \<Rightarrow> trigger (Unhovered p) em1)
            in case v of None \<Rightarrow> em2 | Some c \<Rightarrow> trigger (Hovered c) em2))"

text \<open>
  \<^verbatim>\<open>
  setHovered(el, opts = {}) {
    if (!el) return this.set('componentHovered', '');
    const ev = 'component:hover';
    let model = getModel(el);
    if (!model) return;
    opts.forceChange && this.set('componentHovered', '');
    this.trigger(`${ev}:before`, model, opts);
    if (!model.get('hoverable')) {
      if (opts.useValid && !opts.abort) {
        let parent = model && model.parent();
        while (parent && !parent.get('hoverable')) parent = parent.parent();
        model = parent;
      } else {
        return;
      }
    }
    if (!opts.abort) {
      this.set('componentHovered', model, opts);
      this.trigger(ev, model, opts);
    }
  }
  \<close>
  \<^verbatim>\<open>getModel(el)\<close> is called without \<^verbatim>\<open>$\<close> here: given a DOM element the call
  throws before anything is written.
\<close>

definition commit_hover :: "cid option \<Rightarrow> sel_opts \<Rightarrow> editor \<Rightarrow> editor" where
  "commit_hover model opts em =
     (if \<not> abort opts then trigger (Hover model) (set_componentHovered model em) else em)"

definition setHovered :: "env \<Rightarrow> el \<Rightarrow> sel_opts \<Rightarrow> editor \<Rightarrow> editor outcome option" where
  "setHovered env el opts em =
     (if el = Nothing then Some (Returned (set_componentHovered None em))
      else case getModel_without_cash el of
             None \<Rightarrow> Some (Threw em)
           | Some None \<Rightarrow> Some (Returned em)
           | Some (Some m) \<Rightarrow>
               (let em1 = (if forceChange opts then set_componentHovered None em else em);
                    em2 = trigger (HoverBefore m) em1;
                    opts1 = on_hover_before env m opts
                in if \<not> hoverable env m
                   then (if useValid opts1 \<and> \<not> abort opts1
                         then (case climb (hoverable env) (parent env) (parent env m) of
                                 None \<Rightarrow> None
                               | Some p \<Rightarrow> Some (Returned (commit_hover p opts1 em2)))
                         else Some (Returned em2))
                   else Some (Returned (commit_hover (Some m) opts1 em2))))"

definition getHovered :: "editor \<Rightarrow> cid option" where
  "getHovered em = componentHovered em"

text \<open>
  The first \<open>n\<close> ancestors of an entity, nearest first; shorter when the root comes
  earlier.
\<close>

fun ancestors :: "(cid \<Rightarrow> cid option) \<Rightarrow> nat \<Rightarrow> cid \<Rightarrow> cid list" where
  "ancestors par 0 c = []"
| "ancestors par (Suc n) c =
     (case par c of None \<Rightarrow> [] | Some p \<Rightarrow> p # ancestors par n p)"

text \<open>
  Documents for the examples. In \<open>siblings_env xs\<close> the entities \<open>xs\<close> are the models of
  one collection, all selectable and hoverable, without parents. In \<open>chain_env ok\<close> the
  parent of entity \<open>n + 1\<close> is entity \<open>n\<close>, entity 0 is the root, and \<open>ok\<close> says which
  entities are selectable and hoverable (\<open>everything\<close>: all of them, \<open>only a\<close>: just
  \<open>a\<close>). No listener writes to the options.
\<close>

definition siblings_env :: "cid list \<Rightarrow> env" where
  "siblings_env xs =
     \<lparr>selectable = (\<lambda>c. True), hoverable = (\<lambda>c. True), parent = (\<lambda>c. None),
      collection = (\<lambda>c. if c \<in> set xs then Some 0 else None),
      models = (\<lambda>k. if k = 0 then xs else []),
      on_select_before = (\<lambda>c opts. opts), on_hover_before = (\<lambda>c opts. opts)\<rparr>"

definition chain_env :: "(cid \<Rightarrow> bool) \<Rightarrow> env" where
  "chain_env ok =
     \<lparr>selectable = ok, hoverable = ok,
      parent = (\<lambda>c. if c = 0 then None else Some (c - 1)),
      collection = (\<lambda>c. None), models = (\<lambda>k. []),
      on_select_before = (\<lambda>c opts. opts), on_hover_before = (\<lambda>c opts. opts)\<rparr>"


definition only :: "cid \<Rightarrow> cid \<Rightarrow> bool" where
  "only a c = (c = a)"

definition shift_opts :: sel_opts where
  "shift_opts =
     empty_opts\<lparr>event := Some \<lparr>ctrlKey = False, metaKey = False, shiftKey = True\<rparr>\<rparr>"

section \<open>Readiness\<close>

text \<open>
  Once set, \<open>ready\<close> survives every update of the two flags, and an editor in which both
  flags are set is ready: \<^verbatim>\<open>_checkReady\<close> runs after each change of a flag.
\<close>

lemma flag_step_keeps_ready: "ready em \<Longrightarrow> ready (flag_step u em)"
  by (cases u) (simp_all add: set_readyLoad_def set_readyCanvas_def checkReady_def)

lemma flag_step_inv:
  assumes "both_flags em \<longrightarrow> ready em"
  shows "both_flags (flag_step u em) \<Longrightarrow> ready (flag_step u em)"
  using assms by (cases u) (auto simp: set_readyLoad_def set_readyCanvas_def checkReady_def both_flags_def)

lemma flag_step_ready_iff:
  "both_flags em \<longrightarrow> ready em \<Longrightarrow> ready (flag_step u em) \<longleftrightarrow> ready em \<or> both_flags (flag_step u em)"
  by (cases u) (auto simp: set_readyLoad_def set_readyCanvas_def checkReady_def both_flags_def)

lemma run_flags_snoc: "run_flags (us @ [u]) em = flag_step u (run_flags us em)"
  by (simp add: run_flags_def)

lemma run_flags_inv:
  "both_flags em \<longrightarrow> ready em \<Longrightarrow> both_flags (run_flags us em) \<longrightarrow> ready (run_flags us em)"
proof (induction us rule: rev_induct)
  case Nil
  then show ?case by (simp add: run_flags_def)
next
  case (snoc u us)
  then show ?case using flag_step_inv by (simp add: run_flags_snoc)
qed

lemma ready_run_flags:
  "\<not> ready em \<Longrightarrow> \<not> both_flags em \<Longrightarrow> ready (run_flags us em) \<longleftrightarrow> (\<exists>k\<le>length us. both_flags (run_flags (take k us) em))"
proof (induction us rule: rev_induct)
  case Nil
  then show ?case by (simp add: run_flags_def)
next
  case (snoc u us)
  have inv: "both_flags (run_flags us em) \<longrightarrow> ready (run_flags us em)"
    using snoc.prems by (intro run_flags_inv) simp
  have "ready (run_flags (us @ [u]) em) \<longleftrightarrow> ready (run_flags us em) \<or> both_flags (run_flags (us @ [u]) em)"
    using flag_step_ready_iff [OF inv] by (simp add: run_flags_snoc)
  also have "\<dots> \<longleftrightarrow> (\<exists>k\<le>length us. both_flags (run_flags (take k us) em)) \<or> both_flags (run_flags (us @ [u]) em)"
    using snoc by simp
  also have "\<dots> \<longleftrightarrow> (\<exists>k\<le>length (us @ [u]). both_flags (run_flags (take k (us @ [u])) em))"
  proof -
    have "(\<exists>k\<le>Suc (length us). both_flags (run_flags (take k (us @ [u])) em)) \<longleftrightarrow>
          (\<exists>k\<le>length us. both_flags (run_flags (take k (us @ [u])) em)) \<or> both_flags (run_flags (take (Suc (length us)) (us @ [u])) em)"
      using le_Suc_eq by auto
    moreover have "(\<exists>k\<le>length us. both_flags (run_flags (take k (us @ [u])) em)) \<longleftrightarrow> (\<exists>k\<le>length us. both_flags (run_flags (take k us) em))"
      by auto
    ultimately show ?thesis by simp
  qed
  finally show ?case .
qed

lemma run_flags_keeps_ready: "ready em \<Longrightarrow> ready (run_flags us em)"
  unfolding run_flags_def by (induction us arbitrary: em) (simp_all add: flag_step_keeps_ready)

lemma run_flags_take:
  "j \<le> k \<Longrightarrow> run_flags (take k us) em = run_flags (drop j (take k us)) (run_flags (take j us) em)"
proof -
  assume "j \<le> k"
  have "take j (take k us) @ drop j (take k us) = take k us"
    by (rule append_take_drop_id)
  with \<open>j \<le> k\<close> have "take k us = take j us @ drop j (take k us)"
    by (simp add: min_def)
  then have "run_flags (take k us) em = run_flags (take j us @ drop j (take k us)) em" by simp
  then show ?thesis by (simp add: run_flags_def)
qed

text \<open>
  Claim C8. Start from an editor that is not ready and does not have both flags set, and
  apply any sequence of updates of \<^verbatim>\<open>readyLoad\<close> and \<^verbatim>\<open>readyCanvas\<close>. The
  editor is ready after the sequence exactly when both flags were set together after some
  prefix of it: \<open>ready\<close> becomes true at the first such point. It never goes back:
  ready after a prefix implies ready after every longer prefix, so the change from false
  to true happens at most once.
\<close>

theorem ready_once_never_reverts:
  assumes "\<not> ready em" "\<not> both_flags em"
  shows "(ready (run_flags us em) \<longleftrightarrow> (\<exists>k\<le>length us. both_flags (run_flags (take k us) em)))
     \<and> (\<forall>j k. j \<le> k \<and> ready (run_flags (take j us) em) \<longrightarrow> ready (run_flags (take k us) em))"
proof -
  have "ready (run_flags (take k us) em)" if "j \<le> k" "ready (run_flags (take j us) em)" for j k
    using run_flags_take [OF that(1), of us em] run_flags_keeps_ready [OF that(2)] by simp
  then show ?thesis using ready_run_flags [OF assms, of us] by blast
qed

text \<open>
  An editor from \<^verbatim>\<open>defaults()\<close>: not ready after the canvas flag alone, ready once
  the load flag follows, and still ready after the load flag is set back to 0.
\<close>

theorem ready_once_never_reverts_witness:
  "\<not> ready (defaults False True) \<and> \<not> both_flags (defaults False True)
   \<and> \<not> ready (run_flags [SetReadyCanvas (Num 1)] (defaults False True))
   \<and> ready (run_flags [SetReadyCanvas (Num 1), SetReadyLoad (Num 1)] (defaults False True))
   \<and> ready (run_flags [SetReadyCanvas (Num 1), SetReadyLoad (Num 1), SetReadyLoad (Num 0)] (defaults False True))"
proof -
  let ?us = "[SetReadyCanvas (Num 1), SetReadyLoad (Num 1), SetReadyLoad (Num 0)]"
  have h1: "\<not> ready (defaults False True)" by (simp add: defaults_def)
  have h2: "\<not> both_flags (defaults False True)" by (simp add: defaults_def both_flags_def)
  have a: "\<not> ready (run_flags (take 1 ?us) (defaults False True))"
    by (simp add: run_flags_def defaults_def set_readyCanvas_def checkReady_def)
  have b: "ready (run_flags (take 2 ?us) (defaults False True))"
    by (simp add: run_flags_def defaults_def set_readyCanvas_def set_readyLoad_def checkReady_def)
  have "\<forall>j k. j \<le> k \<and> ready (run_flags (take j ?us) (defaults False True))
           \<longrightarrow> ready (run_flags (take k ?us) (defaults False True))"
    using ready_once_never_reverts [OF h1 h2, of ?us] by (rule conjunct2)
  then have "(2::nat) \<le> 3 \<and> ready (run_flags (take 2 ?us) (defaults False True))
           \<longrightarrow> ready (run_flags (take 3 ?us) (defaults False True))"
    by (rule allE) (erule allE)
  with b have c: "ready (run_flags (take 3 ?us) (defaults False True))" by simp
  from a have a': "\<not> ready (run_flags [SetReadyCanvas (Num 1)] (defaults False True))" by simp
  from b have b': "ready (run_flags [SetReadyCanvas (Num 1), SetReadyLoad (Num 1)] (defaults False True))" by simp
  from c have c': "ready (run_flags ?us (defaults False True))" by simp
  from a' b' c' h1 h2 show ?thesis by blast
qed

section \<open>The change tracker\<close>

text \<open>
  A notification that passes the guard clears the timer named by \<open>timedInterval\<close> and
  sets a new one; the editors themselves are not touched until a timer fires.
\<close>

text \<open>
  The ids stay fresh: a page starts with them in order, and every operation of the model
  keeps every pending timer's id positive and at most the last id given out.
\<close>

lemma timers_ok_page0: "timers_ok (page0 em sh)"
  by (simp add: timers_ok_def page0_def)

lemma timers_ok_setTimeout: "timers_ok s \<Longrightarrow> timers_ok (snd (setTimeout t s))"
  by (auto simp add: timers_ok_def setTimeout_def Let_def list_all_iff)

lemma timers_ok_clearTimeout: "timers_ok s \<Longrightarrow> timers_ok (clearTimeout tid s)"
  by (auto simp add: timers_ok_def clearTimeout_def list_all_iff)

lemma timers_ok_on_editor: "timers_ok (on_editor i f s) = timers_ok s"
  by (simp add: timers_ok_def on_editor_def)

lemma timers_ok_store: "timers_ok (store i a b s) = timers_ok s"
  by (simp add: timers_ok_def store_def split: option.split)

lemma timers_ok_updateChanges: "timers_ok s \<Longrightarrow> timers_ok (updateChanges i s)"
  by (auto simp add: timers_ok_def updateChanges_def setTimeout_def clearTimeout_def store_def
      on_editor_def Let_def list_all_iff split: option.split)

lemma timers_ok_set_changesCount: "timers_ok s \<Longrightarrow> timers_ok (set_changesCount i v q s)"
  by (simp add: set_changesCount_def Let_def timers_ok_updateChanges timers_ok_on_editor)

lemma timers_ok_run_task: "timers_ok s \<Longrightarrow> timers_ok (run_task t s)"
  by (cases t) (simp_all add: Let_def timers_ok_set_changesCount timers_ok_on_editor)

lemma timers_ok_fire_timer: "timers_ok s \<Longrightarrow> timers_ok (fire_timer tid s)"
  by (simp add: fire_timer_def timers_ok_run_task timers_ok_clearTimeout split: option.split)

lemma timers_ok_fold_fire: "timers_ok s \<Longrightarrow> timers_ok (fold fire_timer ids s)"
  by (induction ids arbitrary: s) (simp_all add: timers_ok_fire_timer)

lemma timers_ok_next_turn: "timers_ok s \<Longrightarrow> timers_ok (next_turn s)"
  by (simp add: next_turn_def timers_ok_fold_fire)

lemma timers_ok_store_done: "timers_ok s \<Longrightarrow> timers_ok (store_done r rep s)"
  by (simp add: store_done_def Let_def timers_ok_set_changesCount timers_ok_on_editor
      split: reply.split)

lemma timers_ok_backend_reply: "timers_ok s \<Longrightarrow> timers_ok (backend_reply rep s)"
proof (cases "requests s")
  case Nil
  then show "timers_ok s \<Longrightarrow> ?thesis" by (simp add: backend_reply_def)
next
  case (Cons r rs)
  assume "timers_ok s"
  then have "timers_ok (s\<lparr>requests := rs\<rparr>)" by (simp add: timers_ok_def)
  then show ?thesis using Cons by (simp add: backend_reply_def timers_ok_store_done)
qed

text \<open>The effect of one notification, and of a burst, on the timers.\<close>

lemma filter_zero: "timers_ok s \<Longrightarrow> filter (\<lambda>p. fst p \<noteq> 0) (timers s) = timers s"
  by (auto simp: timers_ok_def list_all_iff filter_id_conv)

lemma handleUpdates_counted:
  assumes "timers_ok s" "ready (editors s i)" "\<not> skip_flag (editors s i)"
    "\<not> temporary opt" "\<not> noCount opt" "\<not> avoidStore opt"
  shows "handleUpdates i opt s =
     s\<lparr>timers := filter (\<lambda>p. fst p \<noteq> timedInterval s) (timers s) @ [(Suc (last_timer s), CountChange i opt)],
      last_timer := Suc (last_timer s), timedInterval := Suc (last_timer s)\<rparr>"
  using assms filter_zero [OF assms(1)]
  by (simp add: handleUpdates_def setTimeout_def clearTimeout_def Let_def)

lemma handleUpdates_editors [simp]: "editors (handleUpdates i opt s) = editors s"
  by (simp add: handleUpdates_def setTimeout_def clearTimeout_def Let_def)

lemma handleUpdates_timers_ok: "timers_ok s \<Longrightarrow> timers_ok (handleUpdates i opt s)"
  by (auto simp add: handleUpdates_def setTimeout_def clearTimeout_def Let_def timers_ok_def list_all_iff)


lemma burst_editors [simp]: "editors (burst i os s) = editors s"
  unfolding burst_def by (induction os arbitrary: s) simp_all

lemma burst_timers_ok: "timers_ok s \<Longrightarrow> timers_ok (burst i os s)"
  unfolding burst_def by (induction os arbitrary: s) (simp_all add: handleUpdates_timers_ok)

lemma handleUpdates_counted':
  assumes "timers_ok s" "ready (editors s i)" "\<not> skip_flag (editors s i)"
    "\<not> temporary opt" "\<not> noCount opt" "\<not> avoidStore opt"
  shows "handleUpdates i opt s = counted i opt 1 s"
  using handleUpdates_counted [OF assms] by (simp add: counted_def)

lemma counted_counted:
  assumes "timers_ok s" "0 < n"
  shows "counted i opt 1 (counted i opt' n s) = counted i opt (Suc n) s"
proof -
  have "\<forall>p\<in>set (timers s). fst p \<noteq> last_timer s + n"
    using assms by (auto simp: timers_ok_def list_all_iff)
  then have "filter (\<lambda>p. fst p \<noteq> last_timer s + n) (filter (\<lambda>p. fst p \<noteq> timedInterval s) (timers s))
        = filter (\<lambda>p. fst p \<noteq> timedInterval s) (timers s)"
    by (subst filter_id_conv) auto
  then show ?thesis by (simp add: counted_def)
qed

lemma burst_counted:
  assumes "timers_ok s" "ready (editors s i)" "\<not> skip_flag (editors s i)" "os \<noteq> []"
    "\<forall>opt\<in>set os. \<not> temporary opt \<and> \<not> noCount opt \<and> \<not> avoidStore opt"
  shows "burst i os s = counted i (last os) (length os) s"
  using assms(4,5)
proof (induction os rule: rev_nonempty_induct)
  case (single opt)
  have "handleUpdates i opt s = counted i opt 1 s"
    using assms(1,2,3) single by (intro handleUpdates_counted') simp_all
  then show ?case by (simp add: burst_def)
next
  case (snoc opt os)
  have "\<forall>opt\<in>set os. \<not> temporary opt \<and> \<not> noCount opt \<and> \<not> avoidStore opt"
    using snoc.prems by simp
  then have s1: "burst i os s = counted i (last os) (length os) s"
    by (rule snoc.IH)
  have b: "burst i (os @ [opt]) s = handleUpdates i opt (burst i os s)" by (simp add: burst_def)
  have c: "handleUpdates i opt (burst i os s) = counted i opt 1 (burst i os s)"
    using burst_timers_ok [OF assms(1)] assms(2,3) snoc.prems by (intro handleUpdates_counted') simp_all
  have d: "counted i opt 1 (counted i (last os) (length os) s) = counted i opt (Suc (length os)) s"
    using assms(1) snoc.hyps(1) by (intro counted_counted) simp_all
  have "burst i (os @ [opt]) s = counted i opt 1 (burst i os s)"
    by (simp only: b c)
  also have "\<dots> = counted i opt 1 (counted i (last os) (length os) s)"
    by (simp only: s1)
  also note d
  finally show ?case by simp
qed


lemma changesCount_updateChanges [simp]:
  "changesCount (editors (updateChanges i s) j) = changesCount (editors s j)"
  by (simp add: updateChanges_def setTimeout_def clearTimeout_def store_def on_editor_def
      trigger_def Let_def split: option.split)

lemma changesCount_set_changesCount:
  "changesCount (editors (set_changesCount i v q s) j) = (if j = i then v else changesCount (editors s j))"
  by (simp add: set_changesCount_def on_editor_def Let_def)

lemma fire_counted:
  assumes "timers_ok s" "0 < n" "changesCount (editors s i) < 2 ^ 53"
  shows "changesCount (editors (fire_timer (last_timer s + n) (counted i opt n s)) i) = changesCount (editors s i) + 1"
proof -
  have "last_timer s + n \<notin> fst ` set (filter (\<lambda>p. fst p \<noteq> timedInterval s) (timers s))"
    using assms by (auto simp: timers_ok_def list_all_iff)
  then have "map_of (filter (\<lambda>p. fst p \<noteq> timedInterval s) (timers s)) (last_timer s + n) = None"
    by (simp add: map_of_eq_None_iff)
  then have m: "map_of (timers (counted i opt n s)) (last_timer s + n) = Some (CountChange i opt)"
    by (simp add: counted_def map_add_def)
  have j: "js_add1 (changesCount (editors s i)) = changesCount (editors s i) + 1"
    using assms(3) by (simp add: js_add1_def)
  have e: "editors (clearTimeout (last_timer s + n) (counted i opt n s)) = editors s"
    by (simp add: clearTimeout_def counted_def)
  show ?thesis
    by (simp add: fire_timer_def m changesCount_set_changesCount e j Let_def)
qed

lemma call_handleUpdates: "call i c s = handleUpdates i (entry_opts c) s"
  by (cases c) (simp_all add: changesUp_def)

lemma burst_of_burst: "burst_of i cs s = burst i (map entry_opts cs) s"
  unfolding burst_of_def burst_def
  by (induction cs arbitrary: s) (simp_all add: call_handleUpdates)

lemma next_turn_single:
  "timers s = [(k, t)] \<Longrightarrow> next_turn s = fire_timer k s"
  by (simp add: next_turn_def)

text \<open>
  Claim C1. An editor that is ready, with \<^verbatim>\<open>__skip\<close> unset and a change counter below
  \<open>2 ^ 53\<close> (where adding 1 to a JavaScript number is exact), receives a burst of one or
  more consecutive notifications within one turn, each through \<^verbatim>\<open>handleUpdates\<close> or
  through \<^verbatim>\<open>changesUp\<close>, none with \<^verbatim>\<open>temporary\<close>, \<^verbatim>\<open>noCount\<close> or
  \<^verbatim>\<open>avoidStore\<close>. During the burst no editor changes. After it the burst has left
  exactly one pending timer, the one \<open>timedInterval\<close> names (the timer \<open>timedInterval\<close>
  named before the burst is gone, the others are as they were). When that timer fires the
  change counter is one more than before the burst, whatever the length of the burst; and
  if no timer was pending before the burst, the counter is one more after the next turn
  of the scheduler.
\<close>

theorem burst_counts_once:
  assumes "timers_ok s" "ready (editors s i)" "\<not> skip_flag (editors s i)" "cs \<noteq> []"
    "\<forall>c\<in>set cs. \<not> temporary (entry_opts c) \<and> \<not> noCount (entry_opts c)
        \<and> \<not> avoidStore (entry_opts c)"
    "changesCount (editors s i) < 2 ^ 53"
  shows "editors (burst_of i cs s) = editors s
       \<and> timers (burst_of i cs s) = filter (\<lambda>p. fst p \<noteq> timedInterval s) (timers s)
            @ [(timedInterval (burst_of i cs s), CountChange i (entry_opts (last cs)))]
       \<and> changesCount (editors (fire_timer (timedInterval (burst_of i cs s)) (burst_of i cs s)) i)
            = changesCount (editors s i) + 1
       \<and> (timers s = [] \<longrightarrow>
            changesCount (editors (next_turn (burst_of i cs s)) i) = changesCount (editors s i) + 1)"
proof -
  define os where "os = map entry_opts cs"
  have os: "os \<noteq> []" "\<forall>opt\<in>set os. \<not> temporary opt \<and> \<not> noCount opt \<and> \<not> avoidStore opt"
    using assms(4,5) by (simp_all add: os_def)
  have l: "last os = entry_opts (last cs)"
    using assms(4) by (simp add: os_def last_map)
  have b: "burst_of i cs s = counted i (last os) (length os) s"
    unfolding burst_of_burst os_def [symmetric]
    using assms(1,2,3) os by (rule burst_counted)
  have n: "0 < length os" using os(1) by simp
  have ti: "timedInterval (counted i (last os) (length os) s) = last_timer s + length os"
    by (simp add: counted_def)
  have f: "changesCount (editors (fire_timer (last_timer s + length os) (counted i (last os) (length os) s)) i)
      = changesCount (editors s i) + 1"
    using assms(1) n assms(6) by (rule fire_counted)
  have t: "timers (counted i (last os) (length os) s) = filter (\<lambda>p. fst p \<noteq> timedInterval s) (timers s)
            @ [(last_timer s + length os, CountChange i (entry_opts (last cs)))]"
    by (simp add: counted_def l)
  have nt: "changesCount (editors (next_turn (counted i (last os) (length os) s)) i) = changesCount (editors s i) + 1"
    if "timers s = []"
  proof -
    have "next_turn (counted i (last os) (length os) s)
      = fire_timer (last_timer s + length os) (counted i (last os) (length os) s)"
      by (rule next_turn_single) (simp add: t that)
    then show ?thesis by (simp only: f)
  qed
  have e: "editors (counted i (last os) (length os) s) = editors s"
    by (simp add: counted_def)
  show ?thesis
    unfolding b ti using e t f nt by blast
qed

text \<open>
  Three notifications on a fresh page whose editor is ready, through \<^verbatim>\<open>changesUp\<close>,
  \<^verbatim>\<open>handleUpdates\<close> and \<^verbatim>\<open>changesUp\<close>: the counter goes from 0 to 1.
\<close>

theorem burst_counts_once_witness:
  "timers_ok (page0 ready_editor ready_editor)
   \<and> ready (editors (page0 ready_editor ready_editor) Primary)
   \<and> \<not> skip_flag (editors (page0 ready_editor ready_editor) Primary)
   \<and> \<not> temporary no_opts \<and> \<not> noCount no_opts \<and> \<not> avoidStore no_opts
   \<and> timers (page0 ready_editor ready_editor) = []
   \<and> changesCount (editors (page0 ready_editor ready_editor) Primary) = 0
   \<and> changesCount (editors (next_turn (burst_of Primary
         [ChangesUp no_opts, HandleUpdates no_opts, ChangesUp no_opts]
         (page0 ready_editor ready_editor))) Primary) = 1
   \<and> changesCount (editors (next_turn (changesUp Primary no_opts (changesUp Primary no_opts
         (page0 ready_editor ready_editor)))) Primary) = 1"
proof -
  let ?s = "page0 ready_editor ready_editor"
  let ?cs = "[ChangesUp no_opts, HandleUpdates no_opts, ChangesUp no_opts]"
  have h1: "timers_ok ?s" by (simp add: timers_ok_def page0_def)
  have h2: "ready (editors ?s Primary)" by (simp add: page0_def ready_editor_def)
  have h3: "\<not> skip_flag (editors ?s Primary)" by (simp add: page0_def ready_editor_def defaults_def)
  have h4: "?cs \<noteq> []" by simp
  have g: "\<not> temporary no_opts \<and> \<not> noCount no_opts \<and> \<not> avoidStore no_opts"
    by (simp add: no_opts_def)
  have h5: "\<forall>c\<in>set ?cs. \<not> temporary (entry_opts c) \<and> \<not> noCount (entry_opts c)
      \<and> \<not> avoidStore (entry_opts c)"
    using g by simp
  have h6: "timers ?s = []" by (simp add: page0_def)
  have h7: "changesCount (editors ?s Primary) = 0" by (simp add: page0_def ready_editor_def defaults_def)
  have h8: "changesCount (editors ?s Primary) < 2 ^ 53" by (simp add: h7)
  from burst_counts_once [OF h1 h2 h3 h4 h5 h8] h6 h7
  have A: "changesCount (editors (next_turn (burst_of Primary ?cs ?s)) Primary) = 1"
    by simp
  have h4': "[ChangesUp no_opts, ChangesUp no_opts] \<noteq> []" by simp
  have h5': "\<forall>c\<in>set [ChangesUp no_opts, ChangesUp no_opts]. \<not> temporary (entry_opts c)
      \<and> \<not> noCount (entry_opts c) \<and> \<not> avoidStore (entry_opts c)"
    using g by simp
  from burst_counts_once [OF h1 h2 h3 h4' h5' h8] h6 h7
  have "changesCount (editors (next_turn (burst_of Primary [ChangesUp no_opts, ChangesUp no_opts] ?s))
      Primary) = 1"
    by simp
  then have B: "changesCount (editors (next_turn (changesUp Primary no_opts
      (changesUp Primary no_opts ?s))) Primary) = 1"
    by (simp add: burst_of_def)
  from A B g h1 h2 h3 h6 h7 show ?thesis by blast
qed

lemma burst_ignored:
  "skip_flag (editors s i) \<Longrightarrow> burst i os s = s"
  unfolding burst_def by (induction os) (simp_all add: handleUpdates_def)

text \<open>
  Claim C7. If \<^verbatim>\<open>__skip\<close> is set, or the notification carries \<^verbatim>\<open>temporary\<close>,
  \<^verbatim>\<open>noCount\<close> or \<^verbatim>\<open>avoidStore\<close>, or the editor is not ready, then
  \<^verbatim>\<open>handleUpdates\<close> and \<^verbatim>\<open>changesUp\<close> return the state as it was: no counter
  changes, no timer is set or cleared, and the next turn does what it would have done.
  The notifications a callback makes under \<^verbatim>\<open>skip\<close> are ignored in this way:
  \<^verbatim>\<open>skip\<close> leaves the state as it was, with \<^verbatim>\<open>__skip\<close> false.
\<close>

theorem ignored_notification_changes_nothing:
  "(skip_flag (editors s i) \<or> temporary opt \<or> noCount opt \<or> avoidStore opt \<or> \<not> ready (editors s i)
      \<longrightarrow> handleUpdates i opt s = s \<and> changesUp i opt s = s \<and> next_turn (changesUp i opt s) = next_turn s)
   \<and> skip i (burst i os) s = on_editor i (\<lambda>em. em\<lparr>skip_flag := False\<rparr>) s"
proof -
  have "burst i os (on_editor i (\<lambda>em. em\<lparr>skip_flag := True\<rparr>) s) = on_editor i (\<lambda>em. em\<lparr>skip_flag := True\<rparr>) s"
    by (rule burst_ignored) (simp add: on_editor_def)
  then have "skip i (burst i os) s = on_editor i (\<lambda>em. em\<lparr>skip_flag := False\<rparr>) s"
    by (simp add: skip_def on_editor_def)
  then show ?thesis by (simp add: handleUpdates_def changesUp_def)
qed

text \<open>
  On a fresh page whose editor is ready, a notification with \<^verbatim>\<open>noCount\<close> sets no
  timer and the counter is 0 after the next turn; two notifications under \<^verbatim>\<open>skip\<close>
  set no timer.
\<close>

theorem ignored_notification_changes_nothing_witness:
  "timers (handleUpdates Primary (no_opts\<lparr>noCount := True\<rparr>) (page0 ready_editor ready_editor)) = []
   \<and> changesCount (editors (next_turn (changesUp Primary (no_opts\<lparr>noCount := True\<rparr>)
         (page0 ready_editor ready_editor))) Primary) = 0
   \<and> timers (skip Primary (burst Primary [no_opts, no_opts]) (page0 ready_editor ready_editor)) = []"
  using ignored_notification_changes_nothing
     [of "page0 ready_editor ready_editor" Primary "no_opts\<lparr>noCount := True\<rparr>" "[no_opts, no_opts]"]
  by (simp add: page0_def ready_editor_def defaults_def no_opts_def next_turn_def on_editor_def)

text \<open>
  An editor that is not ready, as the shallow editor \<^verbatim>\<open>loadOnStart\<close> builds, on which
  nothing sets \<^verbatim>\<open>readyLoad\<close>, stops every notification at the guard: in any
  sequence of notifications on the two editors within a turn those on that editor can be
  left out. That guard, not a timer of its own, is what keeps the shallow editor from
  touching the primary editor's pending increment.
\<close>

lemma notify_all_editors [simp]: "editors (notify_all evs s) = editors s"
  unfolding notify_all_def by (induction evs arbitrary: s) simp_all

lemma notify_all_erase:
  "\<not> ready (editors s j) \<Longrightarrow> notify_all evs s = notify_all (filter (\<lambda>ev. fst ev \<noteq> j) evs) s"
proof (induction evs arbitrary: s)
  case Nil
  then show ?case by simp
next
  case (Cons ev evs)
  have r: "\<not> ready (editors (handleUpdates (fst ev) (snd ev) s) j)"
    using Cons.prems by simp
  show ?case
  proof (cases "fst ev = j")
    case True
    then have "handleUpdates (fst ev) (snd ev) s = s"
      using Cons.prems by (simp add: handleUpdates_def)
    then show ?thesis using True Cons.IH [OF Cons.prems] by (simp add: notify_all_def)
  next
    case False
    then show ?thesis using Cons.IH [OF r] by (simp add: notify_all_def)
  qed
qed

lemma changesCount_run_task_other:
  "i \<noteq> j \<Longrightarrow> changesCount (editors (run_task (CountChange i opt) s) j) = changesCount (editors s j)"
  by (simp add: changesCount_set_changesCount Let_def)


section \<open>Storing\<close>

lemma emitted_updateChanges:
  "StorageManager (editors s i) \<noteq> None \<Longrightarrow> emitted (editors (updateChanges i s) j) = emitted (editors s j)"
  by (auto simp add: updateChanges_def setTimeout_def clearTimeout_def store_def Let_def)

lemma emitted_set_changesCount:
  "StorageManager (editors s i) \<noteq> None \<Longrightarrow> emitted (editors (set_changesCount i v q s) j) = emitted (editors s j)"
  by (simp add: set_changesCount_def on_editor_def Let_def emitted_updateChanges)

lemma store_done_success:
  assumes "StorageManager (editors s (req_inst r)) \<noteq> None"
  shows "changesCount (editors (store_done r (Success res) s) (req_inst r)) = 0"
    and "emitted (editors (store_done r (Success res) s) (req_inst r))
          = emitted (editors s (req_inst r)) @ (if has_resolve r then [Resolve res] else [])"
  using assms
  by (simp_all add: store_done_def changesCount_set_changesCount emitted_set_changesCount
      on_editor_def trigger_def)

lemma store_done_failure:
  shows "changesCount (editors (store_done r (Failure err) s) j) = changesCount (editors s j)"
    and "emitted (editors (store_done r (Failure err) s) (req_inst r))
          = emitted (editors s (req_inst r)) @ (if has_reject r then [Reject err] else [])"
  by (simp_all add: store_done_def on_editor_def trigger_def)

text \<open>
  Claim C2. \<^verbatim>\<open>store(resolve, reject, options)\<close> on an editor with a storage manager
  leaves a request and changes no editor by itself. When the backend reports success
  with a result, \<^verbatim>\<open>resolve\<close> (if given) is called with that result and the change
  counter is 0 afterwards. When the backend reports failure with an error,
  \<^verbatim>\<open>reject\<close> (if given) is called with that error and the change counter is what it
  was. This holds for the answer to the request in any later state \<open>s'\<close>, and, when no
  other request was waiting, for the answer that follows the call.
\<close>

theorem store_success_resets_failure_keeps:
  assumes "StorageManager (editors s i) \<noteq> None"
  shows "editors (store i resolve reject s) = editors s
     \<and> requests (store i resolve reject s)
          = requests s @ [\<lparr>req_inst = i, has_resolve = resolve, has_reject = reject\<rparr>]
     \<and> changesCount (editors (store_done
            \<lparr>req_inst = i, has_resolve = resolve, has_reject = reject\<rparr> (Success res) s') i) = 0
     \<and> (StorageManager (editors s' i) \<noteq> None \<longrightarrow>
          emitted (editors (store_done
            \<lparr>req_inst = i, has_resolve = resolve, has_reject = reject\<rparr> (Success res) s') i)
            = emitted (editors s' i) @ (if resolve then [Resolve res] else []))
     \<and> changesCount (editors (store_done
            \<lparr>req_inst = i, has_resolve = resolve, has_reject = reject\<rparr> (Failure err) s') i)
          = changesCount (editors s' i)
     \<and> emitted (editors (store_done
            \<lparr>req_inst = i, has_resolve = resolve, has_reject = reject\<rparr> (Failure err) s') i)
          = emitted (editors s' i) @ (if reject then [Reject err] else [])
     \<and> (requests s = [] \<longrightarrow>
          changesCount (editors (backend_reply (Success res) (store i resolve reject s)) i) = 0
          \<and> emitted (editors (backend_reply (Success res) (store i resolve reject s)) i)
               = emitted (editors s i) @ (if resolve then [Resolve res] else [])
          \<and> changesCount (editors (backend_reply (Failure err) (store i resolve reject s)) i)
               = changesCount (editors s i)
          \<and> emitted (editors (backend_reply (Failure err) (store i resolve reject s)) i)
               = emitted (editors s i) @ (if reject then [Reject err] else []))"
proof -
  let ?r = "\<lparr>req_inst = i, has_resolve = resolve, has_reject = reject\<rparr>"
  have st: "store i resolve reject s = s\<lparr>requests := requests s @ [?r]\<rparr>"
    using assms by (auto simp: store_def)
  have a: "editors (store i resolve reject s) = editors s"
    and b: "requests (store i resolve reject s) = requests s @ [?r]"
    by (simp_all add: st)
  have c: "changesCount (editors (store_done ?r (Success res) s') i) = 0"
    by (simp add: store_done_def changesCount_set_changesCount)
  have d: "emitted (editors (store_done ?r (Success res) s') i)
            = emitted (editors s' i) @ (if resolve then [Resolve res] else [])"
    if "StorageManager (editors s' i) \<noteq> None"
    using store_done_success(2) [of s' ?r res] that by simp
  have e: "changesCount (editors (store_done ?r (Failure err) s') i) = changesCount (editors s' i)"
    and f: "emitted (editors (store_done ?r (Failure err) s') i)
          = emitted (editors s' i) @ (if reject then [Reject err] else [])"
    using store_done_failure [of ?r err s'] by simp_all
  have g: "changesCount (editors (backend_reply (Success res) (store i resolve reject s)) i) = 0
          \<and> emitted (editors (backend_reply (Success res) (store i resolve reject s)) i)
               = emitted (editors s i) @ (if resolve then [Resolve res] else [])
          \<and> changesCount (editors (backend_reply (Failure err) (store i resolve reject s)) i)
               = changesCount (editors s i)
          \<and> emitted (editors (backend_reply (Failure err) (store i resolve reject s)) i)
               = emitted (editors s i) @ (if reject then [Reject err] else [])"
    if "requests s = []"
  proof -
    have st': "store i resolve reject s = s\<lparr>requests := [?r]\<rparr>"
      using st that by simp
    have br: "backend_reply rep (s\<lparr>requests := [?r]\<rparr>) = store_done ?r rep (s\<lparr>requests := []\<rparr>)" for rep
      by (simp add: backend_reply_def)
    have sm: "StorageManager (editors (s\<lparr>requests := []\<rparr>) (req_inst ?r)) \<noteq> None"
      using assms by simp
    show ?thesis
      unfolding st' br
      using store_done_success [OF sm, of res] store_done_failure [of ?r err "s\<lparr>requests := []\<rparr>"]
      by simp
  qed
  from a b c d e f g show ?thesis by blast
qed

text \<open>An editor with 3 unsaved changes: 0 after a successful store, 3 after a failed one.\<close>

theorem store_success_resets_failure_keeps_witness:
  "changesCount (editors (backend_reply (Success ''saved'')
       (store Primary True True (page0 (ready_editor\<lparr>changesCount := 3\<rparr>) ready_editor))) Primary) = 0
   \<and> emitted (editors (backend_reply (Success ''saved'')
       (store Primary True True (page0 (ready_editor\<lparr>changesCount := 3\<rparr>) ready_editor))) Primary)
        = [Resolve ''saved'']
   \<and> changesCount (editors (backend_reply (Failure ''offline'')
       (store Primary True True (page0 (ready_editor\<lparr>changesCount := 3\<rparr>) ready_editor))) Primary) = 3
   \<and> emitted (editors (backend_reply (Failure ''offline'')
       (store Primary True True (page0 (ready_editor\<lparr>changesCount := 3\<rparr>) ready_editor))) Primary)
        = [Reject ''offline'']"
  using store_success_resets_failure_keeps
     [where s = "page0 (ready_editor\<lparr>changesCount := 3\<rparr>) ready_editor" and i = Primary
        and resolve = True and reject = True and res = "''saved''" and err = "''offline''"
        and s' = "page0 (ready_editor\<lparr>changesCount := 3\<rparr>) ready_editor"]
  by (simp add: page0_def ready_editor_def defaults_def)

section \<open>The module registry\<close>

lemma storables_loadModule:
  "storables (loadModule Mod em) =
     (if isStorable Mod then (if isDomComponents Mod then Mod # storables em else storables em @ [Mod])
      else storables em)"
  by (simp add: loadModule_def Let_def)

lemma storables_loadModules:
  "storables (loadModules ms em) =
     rev (filter (\<lambda>m. isStorable m \<and> isDomComponents m) ms) @ storables em
       @ filter (\<lambda>m. isStorable m \<and> \<not> isDomComponents m) ms"
  unfolding loadModules_def
  by (induction ms arbitrary: em) (simp_all add: storables_loadModule)

text \<open>
  Claim C4. After any sequence of \<^verbatim>\<open>loadModule\<close> calls on an editor whose
  \<^verbatim>\<open>storables\<close> list was empty, the list holds exactly the registered modules with a
  (non-empty) \<^verbatim>\<open>storageKey\<close>, \<^verbatim>\<open>store\<close> and \<^verbatim>\<open>load\<close>: first those whose
  name, first letter lowered, is \<^verbatim>\<open>domComponents\<close> (latest first), then all the other
  storable modules in the order they were registered. When one storable module is named
  so, it is at index 0 and the others follow in registration order.
\<close>

theorem storables_components_first:
  assumes "storables em = []"
  shows "storables (loadModules ms em) =
           rev (filter (\<lambda>m. isStorable m \<and> isDomComponents m) ms)
             @ filter (\<lambda>m. isStorable m \<and> \<not> isDomComponents m) ms
       \<and> set (storables (loadModules ms em)) = {m \<in> set ms. isStorable m}
       \<and> (filter (\<lambda>m. isStorable m \<and> isDomComponents m) ms = [d] \<longrightarrow>
            storables (loadModules ms em) = d # filter (\<lambda>m. isStorable m \<and> \<not> isDomComponents m) ms
            \<and> storables (loadModules ms em) ! 0 = d)"
proof -
  have eq: "storables (loadModules ms em) =
           rev (filter (\<lambda>m. isStorable m \<and> isDomComponents m) ms)
             @ filter (\<lambda>m. isStorable m \<and> \<not> isDomComponents m) ms"
    using assms by (simp add: storables_loadModules)
  have "set (storables (loadModules ms em)) = {m \<in> set ms. isStorable m}"
    unfolding eq by auto
  moreover have "storables (loadModules ms em) = d # filter (\<lambda>m. isStorable m \<and> \<not> isDomComponents m) ms
            \<and> storables (loadModules ms em) ! 0 = d"
    if "filter (\<lambda>m. isStorable m \<and> isDomComponents m) ms = [d]"
    unfolding eq that by simp
  ultimately show ?thesis using eq by blast
qed


text \<open>
  Four modules registered in the order CssComposer, Canvas (not storable), DomComponents,
  PageManager: the list is DomComponents, CssComposer, PageManager.
\<close>

theorem storables_components_first_witness:
  "storables (loadModules
      [storable_module ''CssComposer'', (storable_module ''Canvas'')\<lparr>storageKey := None\<rparr>,
       storable_module ''DomComponents'', storable_module ''PageManager'']
      (defaults False True))
   = [storable_module ''DomComponents'', storable_module ''CssComposer'',
      storable_module ''PageManager'']"
proof -
  let ?ms = "[storable_module ''CssComposer'', (storable_module ''Canvas'')\<lparr>storageKey := None\<rparr>,
       storable_module ''DomComponents'', storable_module ''PageManager'']"
  have h: "storables (defaults False True) = []" by (simp add: defaults_def)
  have d: "filter (\<lambda>m. isStorable m \<and> isDomComponents m) ?ms = [storable_module ''DomComponents'']"
    by code_simp
  have n: "filter (\<lambda>m. isStorable m \<and> \<not> isDomComponents m) ?ms
      = [storable_module ''CssComposer'', storable_module ''PageManager'']"
    by code_simp
  from storables_components_first [OF h, of ?ms "storable_module ''DomComponents''"] d n
  show ?thesis by simp
qed

section \<open>Range selection\<close>

text \<open>
  The search for \<^verbatim>\<open>min\<close> and \<^verbatim>\<open>max\<close> finds the nearest selected sibling on each
  side of the candidate; in a collection whose models are distinct \<^verbatim>\<open>index()\<close> is
  the position, and the two loops add the entities of a range of positions one by one.
\<close>

lemma fold_nearest_split:
  "fold (nearest_step env coll idx) sel mm =
     (fold (keep_max (\<lambda>s. collection env s = coll \<and> index env s < idx) (index env)) sel (fst mm),
      fold (keep_min (\<lambda>s. collection env s = coll \<and> idx < index env s) (index env)) sel (snd mm))"
proof (induction sel arbitrary: mm)
  case Nil
  then show ?case by simp
next
  case (Cons s sel)
  obtain mn mx where mm: "mm = (mn, mx)" by (cases mm)
  have "nearest_step env coll idx s (mn, mx) =
     (keep_max (\<lambda>s. collection env s = coll \<and> index env s < idx) (index env) s mn,
      keep_min (\<lambda>s. collection env s = coll \<and> idx < index env s) (index env) s mx)"
    by (auto simp: nearest_step_def keep_max_def keep_min_def Let_def)
  then show ?case using Cons.IH by (simp add: mm)
qed

lemma fold_keep_max:
  "fold (keep_max P f) sel m = r \<Longrightarrow>
     (r = None \<longrightarrow> m = None \<and> (\<forall>s\<in>set sel. \<not> P s))
     \<and> (\<forall>v. r = Some v \<longrightarrow>
          (m = Some v \<or> (\<exists>s\<in>set sel. P s \<and> f s = v))
          \<and> (\<forall>s\<in>set sel. P s \<longrightarrow> f s \<le> v)
          \<and> (\<forall>u. m = Some u \<longrightarrow> u \<le> v))"
proof (induction sel arbitrary: m r)
  case Nil
  then show ?case by auto
next
  case (Cons s sel)
  from Cons.prems have r: "fold (keep_max P f) sel (keep_max P f s m) = r" by simp
  note IH = Cons.IH [OF r]
  show ?case
  proof (cases "P s")
    case False
    then have "keep_max P f s m = m" by (simp add: keep_max_def)
    with IH False show ?thesis by auto
  next
    case True
    show ?thesis
    proof (cases m)
      case None
      then have k: "keep_max P f s m = Some (f s)" using True by (simp add: keep_max_def)
      from IH show ?thesis unfolding k using True None by auto
    next
      case (Some u)
      then have k: "keep_max P f s m = Some (max u (f s))" using True by (simp add: keep_max_def)
      from IH show ?thesis unfolding k using True Some
        by (auto simp: max_def split: if_splits)
    qed
  qed
qed

lemma fold_keep_min:
  "fold (keep_min P f) sel m = r \<Longrightarrow>
     (r = None \<longrightarrow> m = None \<and> (\<forall>s\<in>set sel. \<not> P s))
     \<and> (\<forall>v. r = Some v \<longrightarrow>
          (m = Some v \<or> (\<exists>s\<in>set sel. P s \<and> f s = v))
          \<and> (\<forall>s\<in>set sel. P s \<longrightarrow> v \<le> f s)
          \<and> (\<forall>u. m = Some u \<longrightarrow> v \<le> u))"
proof (induction sel arbitrary: m r)
  case Nil
  then show ?case by auto
next
  case (Cons s sel)
  from Cons.prems have r: "fold (keep_min P f) sel (keep_min P f s m) = r" by simp
  note IH = Cons.IH [OF r]
  show ?case
  proof (cases "P s")
    case False
    then have "keep_min P f s m = m" by (simp add: keep_min_def)
    with IH False show ?thesis by auto
  next
    case True
    show ?thesis
    proof (cases m)
      case None
      then have k: "keep_min P f s m = Some (f s)" using True by (simp add: keep_min_def)
      from IH show ?thesis unfolding k using True None by auto
    next
      case (Some u)
      then have k: "keep_min P f s m = Some (min u (f s))" using True by (simp add: keep_min_def)
      from IH show ?thesis unfolding k using True Some
        by (auto simp: min_def split: if_splits)
    qed
  qed
qed

lemma indexOf_nth: "distinct xs \<Longrightarrow> j < length xs \<Longrightarrow> indexOf xs (xs ! j) = int j"
proof (induction xs arbitrary: j)
  case Nil
  then show ?case by simp
next
  case (Cons x xs)
  show ?case
  proof (cases j)
    case 0
    then show ?thesis by simp
  next
    case (Suc i)
    with Cons.prems have i: "i < length xs" and d: "distinct xs" and ne: "x \<noteq> xs ! i"
      by auto
    from Cons.IH [OF d i] have "indexOf xs (xs ! i) = int i" .
    with Suc ne show ?thesis by (simp add: Let_def)
  qed
qed

lemma index_nth:
  assumes "models env k = xs" "distinct xs" "\<forall>y. (collection env y = Some k) = (y \<in> set xs)"
    "j < length xs"
  shows "index env (xs ! j) = int j" "collection env (xs ! j) = Some k"
proof -
  show c: "collection env (xs ! j) = Some k" using assms(3,4) by simp
  show "index env (xs ! j) = int j"
    using assms(1) indexOf_nth [OF assms(2,4)] by (simp add: index_def c)
qed

lemma sibling_position:
  assumes "models env k = xs" "distinct xs" "\<forall>y. (collection env y = Some k) = (y \<in> set xs)"
    "collection env s = Some k"
  obtains j where "j < length xs" "s = xs ! j" "index env s = int j"
proof -
  from assms(3,4) have "s \<in> set xs" by simp
  then obtain j where j: "j < length xs" "xs ! j = s" by (auto simp: in_set_conv_nth)
  with index_nth(1) [OF assms(1-3) j(1)] that show thesis by auto
qed

lemma nearest_below:
  assumes env: "models env k = xs" "distinct xs" "\<forall>y. (collection env y = Some k) = (y \<in> set xs)"
    and d: "d < length xs"
    and lo: "lo \<le> d" "lo < d \<longrightarrow> xs ! lo \<in> set sel"
      "\<forall>j. j < d \<and> xs ! j \<in> set sel \<longrightarrow> j \<le> lo \<and> lo < d"
  shows "fold (keep_max (\<lambda>s. collection env s = Some k \<and> index env s < int d) (index env)) sel None
           = (if lo < d then Some (int lo) else None)"
proof -
  let ?P = "\<lambda>s. collection env s = Some k \<and> index env s < int d"
  define r where "r = fold (keep_max ?P (index env)) sel None"
  note props = fold_keep_max [of ?P "index env" sel None r, OF r_def [symmetric]]
  have below: "index env s \<le> int lo \<and> lo < d" if "s \<in> set sel" "?P s" for s
  proof -
    from that(2) have c: "collection env s = Some k" by simp
    from sibling_position [OF env c] obtain j where j: "j < length xs" "s = xs ! j" "index env s = int j" .
    with that have "j < d" "xs ! j \<in> set sel" by simp_all
    with lo(3) j(3) show ?thesis by auto
  qed
  show ?thesis
  proof (cases "lo < d")
    case True
    with lo(2) have in_sel: "xs ! lo \<in> set sel" by simp
    have llen: "lo < length xs" using True d by simp
    have P_lo: "?P (xs ! lo)" and f_lo: "index env (xs ! lo) = int lo"
      using index_nth [OF env llen] True by simp_all
    from props in_sel P_lo have "r \<noteq> None" by blast
    then obtain v where v: "r = Some v" by auto
    with props obtain s where s: "s \<in> set sel" "?P s" "index env s = v" by auto
    from below [OF s(1,2)] s(3) have "v \<le> int lo" by simp
    moreover from props v in_sel P_lo f_lo have "int lo \<le> v" by fastforce
    ultimately show ?thesis using v True by (simp add: r_def)
  next
    case False
    have "r = None"
    proof (cases r)
      case None
      then show ?thesis .
    next
      case (Some v)
      with props obtain s where "s \<in> set sel" "?P s" by auto
      from below [OF this] False show ?thesis by simp
    qed
    then show ?thesis using False by (simp add: r_def)
  qed
qed

lemma nearest_above:
  assumes env: "models env k = xs" "distinct xs" "\<forall>y. (collection env y = Some k) = (y \<in> set xs)"
    and d: "d < length xs"
    and hi: "d \<le> hi" "hi < length xs" "d < hi \<longrightarrow> xs ! hi \<in> set sel"
      "\<forall>j. d < j \<and> j < length xs \<and> xs ! j \<in> set sel \<longrightarrow> hi \<le> j \<and> d < hi"
  shows "fold (keep_min (\<lambda>s. collection env s = Some k \<and> int d < index env s) (index env)) sel None
           = (if d < hi then Some (int hi) else None)"
proof -
  let ?P = "\<lambda>s. collection env s = Some k \<and> int d < index env s"
  define r where "r = fold (keep_min ?P (index env)) sel None"
  note props = fold_keep_min [of ?P "index env" sel None r, OF r_def [symmetric]]
  have above: "int hi \<le> index env s \<and> d < hi" if "s \<in> set sel" "?P s" for s
  proof -
    from that(2) have c: "collection env s = Some k" by simp
    from sibling_position [OF env c] obtain j where j: "j < length xs" "s = xs ! j" "index env s = int j" .
    with that have "d < j" "xs ! j \<in> set sel" by simp_all
    with hi(4) j(1,3) show ?thesis by auto
  qed
  show ?thesis
  proof (cases "d < hi")
    case True
    with hi(3) have in_sel: "xs ! hi \<in> set sel" by simp
    have P_hi: "?P (xs ! hi)" and f_hi: "index env (xs ! hi) = int hi"
      using index_nth [OF env hi(2)] True by simp_all
    from props in_sel P_hi have "r \<noteq> None" by blast
    then obtain v where v: "r = Some v" by auto
    with props obtain s where s: "s \<in> set sel" "?P s" "index env s = v" by auto
    from above [OF s(1,2)] s(3) have "int hi \<le> v" by simp
    moreover from props v in_sel P_hi f_hi have "v \<le> int hi" by fastforce
    ultimately show ?thesis using v True by (simp add: r_def)
  next
    case False
    have "r = None"
    proof (cases r)
      case None
      then show ?thesis .
    next
      case (Some v)
      with props obtain s where "s \<in> set sel" "?P s" by auto
      from above [OF this] False show ?thesis by simp
    qed
    then show ?thesis using False by (simp add: r_def)
  qed
qed

lemma at_nth: "models env k = xs \<Longrightarrow> j < length xs \<Longrightarrow> at env k (int j) = Some (xs ! j)"
  by (simp add: at_def Let_def)

lemma add_up_range:
  assumes "models env k = xs"
  shows "a + n \<le> length xs \<Longrightarrow>
     add_up env (Some k) (int a) (int (a + n)) em =
       Some (Returned (fold (\<lambda>j. addSelected_model env empty_opts (Some (xs ! j))) [a..<a + n] em))"
proof (induction n arbitrary: a em)
  case 0
  show ?case by (subst add_up.simps) simp
next
  case (Suc n)
  have a: "a < length xs" using Suc.prems by simp
  have step: "add_up env (Some k) (int a) (int (a + Suc n)) em =
      add_up env (Some k) (int (Suc a)) (int (Suc a + n)) (addSelected_model env empty_opts (Some (xs ! a)) em)"
    by (subst add_up.simps) (simp add: at_nth [OF assms a] add.commute)
  have "Suc a + n \<le> length xs" using Suc.prems by simp
  from Suc.IH [OF this] have "add_up env (Some k) (int (Suc a)) (int (Suc a + n)) (addSelected_model env empty_opts (Some (xs ! a)) em) =
     Some (Returned (fold (\<lambda>j. addSelected_model env empty_opts (Some (xs ! j))) [Suc a..<Suc a + n]
        (addSelected_model env empty_opts (Some (xs ! a)) em)))" .
  moreover have "[a..<a + Suc n] = a # [Suc a..<Suc a + n]"
    by (simp add: upt_conv_Cons)
  ultimately show ?case unfolding step by simp
qed

lemma add_down_range:
  assumes "models env k = xs"
  shows "a + n < length xs \<Longrightarrow>
     add_down env (Some k) (int (a + n)) (int a) em =
       Some (Returned (fold (\<lambda>j. addSelected_model env empty_opts (Some (xs ! j))) (rev [Suc a..<Suc (a + n)]) em))"
proof (induction n arbitrary: em)
  case 0
  show ?case by (subst add_down.simps) simp
next
  case (Suc n)
  have a: "a + Suc n < length xs" using Suc.prems by simp
  have step: "add_down env (Some k) (int (a + Suc n)) (int a) em =
      add_down env (Some k) (int (a + n)) (int a) (addSelected_model env empty_opts (Some (xs ! (a + Suc n))) em)"
  proof -
    have "at env k (1 + (int a + int n)) = Some (xs ! Suc (a + n))"
      using at_nth [OF assms a] by (simp add: algebra_simps)
    then show ?thesis by (subst add_down.simps) simp
  qed
  have "a + n < length xs" using Suc.prems by simp
  from Suc.IH [OF this] have "add_down env (Some k) (int (a + n)) (int a) (addSelected_model env empty_opts (Some (xs ! (a + Suc n))) em) =
     Some (Returned (fold (\<lambda>j. addSelected_model env empty_opts (Some (xs ! j))) (rev [Suc a..<Suc (a + n)])
        (addSelected_model env empty_opts (Some (xs ! (a + Suc n))) em)))" .
  then show ?case unfolding step by simp
qed

lemma selected_trigger [simp]: "selected (trigger ev em) = selected em"
  by (simp add: trigger_def)

lemma set_selected_addSelected_model:
  "selectable env m \<Longrightarrow>
     set (selected (addSelected_model env empty_opts (Some m) em)) = insert m (set (selected em))"
  by (auto simp add: addSelected_model_def empty_opts_def addComponent_def Let_def)

lemma set_selected_fold_addSelected_model:
  "\<forall>j\<in>set js. selectable env (xs ! j) \<Longrightarrow>
     set (selected (fold (\<lambda>j. addSelected_model env empty_opts (Some (xs ! j))) js em))
       = set (selected em) \<union> (\<lambda>j. xs ! j) ` set js"
  by (induction js arbitrary: em) (auto simp add: set_selected_addSelected_model)

lemma select_model_range:
  assumes env: "models env k = xs" "distinct xs" "\<forall>y. (collection env y = Some k) = (y \<in> set xs)"
    and d: "d < length xs"
    and lo: "lo \<le> d" "lo < d \<longrightarrow> xs ! lo \<in> set (selected em)"
      "\<forall>j. j < d \<and> xs ! j \<in> set (selected em) \<longrightarrow> j \<le> lo \<and> lo < d"
    and hi: "d \<le> hi" "hi < length xs" "d < hi \<longrightarrow> xs ! hi \<in> set (selected em)"
      "\<forall>j. d < j \<and> j < length xs \<and> xs ! j \<in> set (selected em) \<longrightarrow> hi \<le> j \<and> d < hi"
  shows "select_model env False True multiple True selected0 (Some (xs ! d)) opts em =
     Some (Returned (addSelected_model env empty_opts (Some (xs ! d))
        (fold (\<lambda>j. addSelected_model env empty_opts (Some (xs ! j))) (rev [Suc d..<Suc hi])
           (fold (\<lambda>j. addSelected_model env empty_opts (Some (xs ! j))) [lo..<d]
              (trigger ClearSelection em)))))"
proof -
  let ?em1 = "trigger ClearSelection em"
  let ?add = "\<lambda>j. addSelected_model env empty_opts (Some (xs ! j))"
  note id = index_nth [OF env d]
  have near: "fold (nearest_step env (Some k) (int d)) (getSelectedAll ?em1) (None, None)
      = (if lo < d then Some (int lo) else None, if d < hi then Some (int hi) else None)"
    using nearest_below [OF env d lo] nearest_above [OF env d hi]
    by (simp add: fold_nearest_split getSelectedAll_def)
  obtain n where n: "d = lo + n" using lo(1) le_Suc_ex by blast
  obtain u where u: "hi = d + u" using hi(1) le_Suc_ex by blast
  have up: "add_up env (Some k) (int lo) (int d) em' = Some (Returned (fold ?add [lo..<d] em'))" for em'
    using add_up_range [OF env(1), of lo n em'] d n by simp
  have down: "add_down env (Some k) (int hi) (int d) em' = Some (Returned (fold ?add (rev [Suc d..<Suc hi]) em'))" for em'
    using add_down_range [OF env(1), of d u em'] hi(2) u by simp
  have lo_eq: "fold ?add [lo..<d] ?em1 = ?em1" if "\<not> lo < d"
    using that by simp
  have hi_eq: "fold ?add (rev [Suc d..<Suc hi]) em' = em'" if "\<not> d < hi" for em'
    using that by simp
  show ?thesis
  proof (cases "lo < d")
    case True
    show ?thesis
    proof (cases "d < hi")
      case True
      with \<open>lo < d\<close> show ?thesis
        unfolding select_model_def by (simp add: Let_def id near up down)
    next
      case False
      with \<open>lo < d\<close> show ?thesis
        unfolding select_model_def by (simp add: Let_def id near up)
    qed
  next
    case False
    show ?thesis
    proof (cases "d < hi")
      case True
      with \<open>\<not> lo < d\<close> show ?thesis
        unfolding select_model_def by (simp add: Let_def id near down)
    next
      case False
      with \<open>\<not> lo < d\<close> show ?thesis
        unfolding select_model_def by (simp add: Let_def id near)
    qed
  qed
qed

lemma setSelected_single:
  "setSelected env (Single e) opts em =
     (case select_one env
        (case event opts of None \<Rightarrow> False | Some ev \<Rightarrow> ctrlKey ev \<or> metaKey ev)
        (case event opts of None \<Rightarrow> False | Some ev \<Rightarrow> shiftKey ev)
        False (multipleSelection em) (getSelectedAll em) (getModel e) opts em of
        None \<Rightarrow> None
      | Some (Threw x) \<Rightarrow> Some (Threw x)
      | Some (Returned x) \<Rightarrow> Some (Returned x))"
  by (simp add: setSelected_def Let_def split: option.split outcome.split)

text \<open>
  Claim C3. Let \<open>xs\<close> be the models of one collection (distinct, and exactly the entities
  that have this collection), \<open>d\<close> the position of the candidate, multi-selection
  enabled, the shift key down, no ctrl or meta key, \<^verbatim>\<open>abort\<close> unset after the
  listeners. Let \<open>lo\<close> be the position of the nearest selected sibling below \<open>d\<close>
  (\<open>lo = d\<close> when no sibling below is selected), \<open>hi\<close> the position of the nearest
  selected sibling above (\<open>hi = d\<close> when none is), and let the entities at the positions
  \<open>lo\<close> to \<open>hi\<close> be selectable. Then \<^verbatim>\<open>setSelected\<close> returns, and the entities
  selected afterwards are those selected before and the entities at the positions \<open>lo\<close>
  to \<open>hi\<close>: the contiguous block from the nearest selected sibling on each side to the
  candidate, both included, and nothing past them. With siblings A, B, C, D, E and only B
  selected, selecting D gives exactly B, C, D.
\<close>

theorem shift_range_selection:
  assumes "models env k = xs" "distinct xs" "\<forall>y. (collection env y = Some k) = (y \<in> set xs)"
    and "d < length xs"
    and "lo \<le> d" "lo < d \<longrightarrow> xs ! lo \<in> set (selected em)"
      "\<forall>j. j < d \<and> xs ! j \<in> set (selected em) \<longrightarrow> j \<le> lo \<and> lo < d"
    and "d \<le> hi" "hi < length xs" "d < hi \<longrightarrow> xs ! hi \<in> set (selected em)"
      "\<forall>j. d < j \<and> j < length xs \<and> xs ! j \<in> set (selected em) \<longrightarrow> hi \<le> j \<and> d < hi"
    and "\<forall>j. lo \<le> j \<and> j \<le> hi \<longrightarrow> selectable env (xs ! j)"
    and "multipleSelection em"
    and "event opts = Some e" "shiftKey e" "\<not> ctrlKey e" "\<not> metaKey e"
    and "\<not> abort (on_select_before env (xs ! d) opts)"
  shows "map_option set (selection_after (setSelected env (Single (Model (xs ! d))) opts em))
           = Some (set (selected em) \<union> {xs ! j |j. lo \<le> j \<and> j \<le> hi})"
proof -
  let ?em1 = "trigger (SelectBefore (xs ! d)) em"
  let ?o1 = "on_select_before env (xs ! d) opts"
  let ?add = "\<lambda>j. addSelected_model env empty_opts (Some (xs ! j))"
  let ?F = "fold ?add (rev [Suc d..<Suc hi]) (fold ?add [lo..<d] (trigger ClearSelection ?em1))"
  have okd: "selectable env (xs ! d)" using assms(5,8,12) by simp
  have m: "select_model env False True False True (getSelectedAll em) (Some (xs ! d)) ?o1 ?em1 =
     Some (Returned (addSelected_model env empty_opts (Some (xs ! d)) ?F))"
    using assms(1-11) by (intro select_model_range) simp_all
  have "set (selected (addSelected_model env empty_opts (Some (xs ! d)) ?F))
      = insert (xs ! d) (set (selected ?F))"
    using okd by (rule set_selected_addSelected_model)
  also have "set (selected ?F)
      = set (selected (fold ?add [lo..<d] (trigger ClearSelection ?em1))) \<union> (\<lambda>j. xs ! j) ` set (rev [Suc d..<Suc hi])"
    using assms(5,12) by (intro set_selected_fold_addSelected_model) (auto simp del: upt_Suc)
  also have "set (selected (fold ?add [lo..<d] (trigger ClearSelection ?em1)))
      = set (selected (trigger ClearSelection ?em1)) \<union> (\<lambda>j. xs ! j) ` set [lo..<d]"
    using assms(8,12) by (intro set_selected_fold_addSelected_model) (auto simp del: upt_Suc)
  finally have s: "set (selected (addSelected_model env empty_opts (Some (xs ! d)) ?F))
      = insert (xs ! d) (set (selected em) \<union> (\<lambda>j. xs ! j) ` set [lo..<d]
          \<union> (\<lambda>j. xs ! j) ` set (rev [Suc d..<Suc hi]))"
    by simp
  have "insert (xs ! d) (set (selected em) \<union> (\<lambda>j. xs ! j) ` set [lo..<d]
          \<union> (\<lambda>j. xs ! j) ` set (rev [Suc d..<Suc hi]))
      = set (selected em) \<union> {xs ! j |j. lo \<le> j \<and> j \<le> hi}"
  proof -
    have "{j. lo \<le> j \<and> j \<le> hi} = insert d (set [lo..<d] \<union> set (rev [Suc d..<Suc hi]))"
      using assms(5,8) by (auto simp del: upt_Suc)
    then have "{xs ! j |j. lo \<le> j \<and> j \<le> hi}
        = (\<lambda>j. xs ! j) ` insert d (set [lo..<d] \<union> set (rev [Suc d..<Suc hi]))"
      by (auto simp del: upt_Suc set_rev set_upt)
    then show ?thesis by (auto simp del: upt_Suc)
  qed
  with s have s': "set (selected (addSelected_model env empty_opts (Some (xs ! d)) ?F))
      = set (selected em) \<union> {xs ! j |j. lo \<le> j \<and> j \<le> hi}"
    by simp
  have one: "select_one env False True False True (getSelectedAll em) (Some (xs ! d)) opts em
      = with_opts ?o1 (select_model env False True False True (getSelectedAll em) (Some (xs ! d)) ?o1 ?em1)"
    using okd assms(18) by (simp add: select_one_def Let_def)
  have "setSelected env (Single (Model (xs ! d))) opts em
      = Some (Returned (?o1, addSelected_model env empty_opts (Some (xs ! d)) ?F))"
    using assms(13-17) by (simp add: setSelected_single one m)
  then show ?thesis by (simp only: selection_after.simps option.map s')
qed

text \<open>
  Siblings 1 to 5 (A to E), only 2 (B) selected, shift-select 4 (D): \<open>lo\<close> is 1, \<open>hi\<close>
  is 3, and the selection is 2, 3, 4, in this order.
\<close>

theorem shift_range_selection_witness:
  "map_option set (selection_after (setSelected (siblings_env [1, 2, 3, 4, 5]) (Single (Model 4))
      shift_opts ((defaults False True)\<lparr>selected := [2]\<rparr>))) = Some {2, 3, 4}
   \<and> selection_after (setSelected (siblings_env [1, 2, 3, 4, 5]) (Single (Model 4))
      shift_opts ((defaults False True)\<lparr>selected := [2]\<rparr>)) = Some [2, 3, 4]"
proof -
  let ?xs = "[1, 2, 3, 4, 5] :: cid list"
  let ?env = "siblings_env ?xs"
  let ?em = "(defaults False True)\<lparr>selected := [2]\<rparr>"
  let ?e = "\<lparr>ctrlKey = False, metaKey = False, shiftKey = True\<rparr>"
  have pos: "j = 0 \<or> j = 1 \<or> j = 2 \<or> j = 3 \<or> j = 4" if "j < 5" for j :: nat
    using that by arith
  have h1: "models ?env 0 = ?xs" by (simp add: siblings_env_def)
  have h2: "distinct ?xs" by simp
  have h3: "\<forall>y. (collection ?env y = Some 0) = (y \<in> set ?xs)" by (simp add: siblings_env_def)
  have h4: "3 < length ?xs" by simp
  have h5: "(1::nat) \<le> 3" by simp
  have h6: "(1::nat) < 3 \<longrightarrow> ?xs ! 1 \<in> set (selected ?em)" by simp
  have h7: "\<forall>j. j < 3 \<and> ?xs ! j \<in> set (selected ?em) \<longrightarrow> j \<le> 1 \<and> (1::nat) < 3"
  proof (intro allI impI)
    fix j assume a: "j < 3 \<and> ?xs ! j \<in> set (selected ?em)"
    then have "j < 5" by simp
    from pos [OF this] a show "j \<le> 1 \<and> (1::nat) < 3" by auto
  qed
  have h8: "(3::nat) \<le> 3" by simp
  have h9: "3 < length ?xs" by simp
  have h10: "(3::nat) < 3 \<longrightarrow> ?xs ! 3 \<in> set (selected ?em)" by simp
  have h11: "\<forall>j. 3 < j \<and> j < length ?xs \<and> ?xs ! j \<in> set (selected ?em) \<longrightarrow> 3 \<le> j \<and> (3::nat) < 3"
  proof (intro allI impI)
    fix j assume a: "3 < j \<and> j < length ?xs \<and> ?xs ! j \<in> set (selected ?em)"
    then have "j < 5" by simp
    from pos [OF this] a show "3 \<le> j \<and> (3::nat) < 3" by auto
  qed
  have h12: "\<forall>j. 1 \<le> j \<and> j \<le> 3 \<longrightarrow> selectable ?env (?xs ! j)" by (simp add: siblings_env_def)
  have h13: "multipleSelection ?em" by (simp add: defaults_def)
  have h14: "event shift_opts = Some ?e" by (simp add: shift_opts_def)
  have h15: "shiftKey ?e" "\<not> ctrlKey ?e" "\<not> metaKey ?e" by simp_all
  have h16: "\<not> abort (on_select_before ?env (?xs ! 3) shift_opts)"
    by (simp add: siblings_env_def shift_opts_def empty_opts_def)
  have block: "{?xs ! j |j. 1 \<le> j \<and> j \<le> 3} = {2, 3, 4}"
  proof -
    have "{j. 1 \<le> j \<and> j \<le> 3} = {1, 2, 3::nat}" by auto
    then have "{?xs ! j |j. 1 \<le> j \<and> j \<le> 3} = (\<lambda>j. ?xs ! j) ` {1, 2, 3::nat}" by blast
    then show ?thesis by simp
  qed
  from shift_range_selection [OF h1 h2 h3 h4 h5 h6 h7 h8 h9 h10 h11 h12 h13 h14 h15 h16]
  have "map_option set (selection_after (setSelected ?env (Single (Model (?xs ! 3))) shift_opts ?em))
      = Some (set (selected ?em) \<union> {?xs ! j |j. 1 \<le> j \<and> j \<le> 3})" .
  then have A: "map_option set (selection_after (setSelected ?env (Single (Model 4)) shift_opts ?em))
      = Some {2, 3, 4}"
  proof -
    have "set (selected ?em) \<union> {2, 3, 4} = {2, 3, 4::nat}" by auto
    with \<open>map_option set (selection_after (setSelected ?env (Single (Model (?xs ! 3))) shift_opts ?em))
      = Some (set (selected ?em) \<union> {?xs ! j |j. 1 \<le> j \<and> j \<le> 3})\<close>
    show ?thesis unfolding block by simp
  qed
  have B: "selection_after (setSelected ?env (Single (Model 4)) shift_opts ?em) = Some [2, 3, 4]"
    by code_simp
  from A B show ?thesis by blast
qed

section \<open>Validity of the target\<close>


lemma climb_none:
  "length (ancestors par (Suc n) m) \<le> n \<Longrightarrow> \<forall>p\<in>set (ancestors par (Suc n) m). \<not> ok p \<Longrightarrow>
     climb ok par (par m) = Some None"
proof (induction n arbitrary: m)
  case 0
  then have "par m = None" by (simp split: option.splits)
  then show ?case by (subst climb.simps) simp
next
  case (Suc n)
  show ?case
  proof (cases "par m")
    case None
    then show ?thesis by (subst climb.simps) simp
  next
    case (Some q)
    with Suc.prems have l: "length (ancestors par (Suc n) q) \<le> n"
      and nq: "\<not> ok q" and rest: "\<forall>p\<in>set (ancestors par (Suc n) q). \<not> ok p"
      by simp_all
    from Suc.IH [OF l rest] have "climb ok par (par q) = Some None" .
    with Some nq show ?thesis by (subst climb.simps) simp
  qed
qed






text \<open>
  Claim C6. For a candidate that is not selectable the code does what the claim says when
  \<^verbatim>\<open>useValid\<close> is unset (\<open>select_one_dropped\<close>: the candidate is dropped, nothing
  changes) and when a selectable ancestor exists (\<open>select_one_climbs\<close> with
  \<open>climb_nearest\<close>: the nearest one takes the candidate's place). Where no ancestor is
  selectable it does not drop the candidate: the walk leaves \<^verbatim>\<open>model\<close> undefined and
  the callback goes on with it. Entity 1 and its parent 0, the root, are not selectable;
  entity 7 is selected. A plain single-target \<^verbatim>\<open>setSelected\<close> of entity 1 with
  \<^verbatim>\<open>useValid\<close> takes entity 7 out of the Selection Set, and with the shift key down the same call throws a
  \<^verbatim>\<open>TypeError\<close>, at \<^verbatim>\<open>model.collection\<close>, after the text selection was cleared.
\<close>

theorem no_ancestor_falls_through:
  "\<not> selectable (chain_env (only 7)) 1 \<and> \<not> selectable (chain_env (only 7)) 0
   \<and> parent (chain_env (only 7)) 1 = Some 0 \<and> parent (chain_env (only 7)) 0 = None
   \<and> hasComponent (Some 7) (selected ((defaults False True)\<lparr>selected := [7]\<rparr>))
   \<and> map_option (hasComponent (Some 7))
        (selection_after (setSelected (chain_env (only 7)) (Single (Model 1))
          (empty_opts\<lparr>useValid := True\<rparr>) ((defaults False True)\<lparr>selected := [7]\<rparr>)))
       = Some False
   \<and> setSelected (chain_env (only 7)) (Single (Model 1)) (shift_opts\<lparr>useValid := True\<rparr>)
        ((defaults False True)\<lparr>selected := [7]\<rparr>)
       = Some (Threw (shift_opts\<lparr>useValid := True\<rparr>,
           (defaults False True)\<lparr>selected := [7], emitted := [SelectBefore 1, ClearSelection]\<rparr>))"
  by code_simp

text \<open>
  Claim C9. The selection and hover operations do raise an error on some invalid input.
  With multi-selection enabled and the shift key down, \<^verbatim>\<open>setSelected\<close> of a target
  from which no entity can be resolved (nothing, or a DOM element with no model) throws
  a \<^verbatim>\<open>TypeError\<close> at \<^verbatim>\<open>model.collection\<close>: the check \<^verbatim>\<open>if (model)\<close> guards the
  validity test only. \<^verbatim>\<open>setHovered\<close> of a DOM element, with or without a model,
  throws a \<^verbatim>\<open>TypeError\<close> in \<^verbatim>\<open>getModel(el)\<close>, which it calls without \<^verbatim>\<open>$\<close>, before it
  reaches \<^verbatim>\<open>if (!model) return\<close>.
\<close>

theorem invalid_target_throws:
  "getModel Nothing = None \<and> getModel Detached = None
   \<and> setSelected (siblings_env [1, 2, 3]) (Single Nothing) shift_opts
        ((defaults False True)\<lparr>selected := [2]\<rparr>)
       = Some (Threw (shift_opts, (defaults False True)\<lparr>selected := [2], emitted := [ClearSelection]\<rparr>))
   \<and> setSelected (siblings_env [1, 2, 3]) (Single Detached) shift_opts
        ((defaults False True)\<lparr>selected := [2]\<rparr>)
       = Some (Threw (shift_opts, (defaults False True)\<lparr>selected := [2], emitted := [ClearSelection]\<rparr>))
   \<and> setHovered (siblings_env [1, 2, 3]) Detached empty_opts
        ((defaults False True)\<lparr>componentHovered := Some 2\<rparr>)
       = Some (Threw ((defaults False True)\<lparr>componentHovered := Some 2\<rparr>))
   \<and> setHovered (siblings_env [1, 2, 3]) (Element 1) empty_opts
        ((defaults False True)\<lparr>componentHovered := Some 2\<rparr>)
       = Some (Threw ((defaults False True)\<lparr>componentHovered := Some 2\<rparr>))"
  by code_simp

end
